theory Spec2Isabelle
  imports Main "HOL-Library.Word" "HOL-Library.Multiset"
begin

section \<open>The data of proclikefs.c\<close>

text \<open>
  The development follows \<^verbatim>\<open>linuxmodule/proclikefs.c\<close>. Pointers are addresses
  (\<open>addr\<close>), a pointer that may be null is an \<open>addr option\<close>. The source is written
  for several kernels and selects its code with \<^verbatim>\<open>LINUX_VERSION_CODE\<close>; that
  constant comes from the kernel headers, so every operation takes it as its first
  argument. Spin locks, \<^verbatim>\<open>lock_super\<close> and \<^verbatim>\<open>file_list_lock\<close> have no effect on a
  sequential run and are left out. \<^verbatim>\<open>proclikefs_reinitialize_supers\<close> and
  \<^verbatim>\<open>cleanup_module\<close> are not part of the development.
\<close>

type_synonym addr = nat
type_synonym version = nat

definition KERNEL_VERSION :: "nat \<Rightarrow> nat \<Rightarrow> nat \<Rightarrow> version" where
  \<comment> \<open>the macro of \<^verbatim>\<open>linux/version.h\<close>: \<^verbatim>\<open>(((a) << 16) + ((b) << 8) + (c))\<close>\<close>
  "KERNEL_VERSION a b c = a * 65536 + b * 256 + c"

text \<open>
  The values a function pointer of this file can hold: null, one of the file's own
  functions, the kernel's \<^verbatim>\<open>kill_anon_super\<close>, or a function supplied by the
  driver (numbered).
\<close>

datatype fnptr =
    fn_NULL
  | fn_return_EIO
  | fn_bad_follow_link
  | fn_proclikefs_null_read_super
  | fn_proclikefs_null_root_lookup
  | fn_proclikefs_read_inode
  | fn_proclikefs_put_super
  | fn_kill_anon_super
  | fn_driver nat

definition EIO :: int where
  \<comment> \<open>the kernel's \<^verbatim>\<open>errno\<close> values\<close>
  "EIO = 5"

definition ENOENT :: int where
  "ENOENT = 2"

fun stub_result :: "fnptr \<Rightarrow> int option" where
  \<comment> \<open>what the two constant stubs return: \<^verbatim>\<open>return_EIO\<close> gives \<^verbatim>\<open>-EIO\<close>,
      \<^verbatim>\<open>proclikefs_null_root_lookup\<close> gives \<^verbatim>\<open>ERR_PTR(-ENOENT)\<close>\<close>
  "stub_result fn_return_EIO = Some (- EIO)"
| "stub_result fn_proclikefs_null_root_lookup = Some (- ENOENT)"
| "stub_result _ = None"

text \<open>
  The members of \<^verbatim>\<open>struct file_operations\<close>, \<^verbatim>\<open>struct inode_operations\<close> and
  \<^verbatim>\<open>struct super_operations\<close> that the source names. A table is a function from
  member to function pointer.
\<close>

datatype fo_slot =
    FO_llseek | FO_read | FO_write | FO_readdir | FO_poll | FO_ioctl | FO_mmap
  | FO_open | FO_flush | FO_release | FO_fsync | FO_fasync | FO_lock | FO_readv
  | FO_writev | FO_sendpage | FO_get_unmapped_area
  | FO_aio_read | FO_aio_write | FO_unlocked_ioctl | FO_compat_ioctl | FO_aio_fsync
  | FO_sendfile | FO_check_flags | FO_flock

datatype io_slot =
    IO_create | IO_lookup | IO_link | IO_unlink | IO_symlink | IO_mkdir | IO_rmdir
  | IO_mknod | IO_rename | IO_readlink | IO_follow_link | IO_truncate | IO_permission
  | IO_setattr | IO_getattr
  | IO_setxattr | IO_getxattr | IO_listxattr | IO_removexattr
  | IO_put_link | IO_revalidate

datatype so_slot = SO_read_inode | SO_put_super

type_synonym file_operations = "fo_slot \<Rightarrow> fnptr"
type_synonym inode_operations = "io_slot \<Rightarrow> fnptr"
type_synonym super_operations = "so_slot \<Rightarrow> fnptr"

fun fo_slot_exists :: "version \<Rightarrow> fo_slot \<Rightarrow> bool" where
  \<comment> \<open>the members the source addresses at a version: the last eight only from 2.6.0\<close>
  "fo_slot_exists v FO_aio_read = (KERNEL_VERSION 2 6 0 \<le> v)"
| "fo_slot_exists v FO_aio_write = (KERNEL_VERSION 2 6 0 \<le> v)"
| "fo_slot_exists v FO_unlocked_ioctl = (KERNEL_VERSION 2 6 0 \<le> v)"
| "fo_slot_exists v FO_compat_ioctl = (KERNEL_VERSION 2 6 0 \<le> v)"
| "fo_slot_exists v FO_aio_fsync = (KERNEL_VERSION 2 6 0 \<le> v)"
| "fo_slot_exists v FO_sendfile = (KERNEL_VERSION 2 6 0 \<le> v)"
| "fo_slot_exists v FO_check_flags = (KERNEL_VERSION 2 6 0 \<le> v)"
| "fo_slot_exists v FO_flock = (KERNEL_VERSION 2 6 0 \<le> v)"
| "fo_slot_exists v _ = True"

fun io_slot_exists :: "version \<Rightarrow> io_slot \<Rightarrow> bool" where
  \<comment> \<open>the extended attributes from 2.4.20, \<^verbatim>\<open>put_link\<close> from 2.6.0,
      \<^verbatim>\<open>revalidate\<close> before 2.6.0\<close>
  "io_slot_exists v IO_setxattr = (KERNEL_VERSION 2 4 20 \<le> v)"
| "io_slot_exists v IO_getxattr = (KERNEL_VERSION 2 4 20 \<le> v)"
| "io_slot_exists v IO_listxattr = (KERNEL_VERSION 2 4 20 \<le> v)"
| "io_slot_exists v IO_removexattr = (KERNEL_VERSION 2 4 20 \<le> v)"
| "io_slot_exists v IO_put_link = (KERNEL_VERSION 2 6 0 \<le> v)"
| "io_slot_exists v IO_revalidate = (v < KERNEL_VERSION 2 6 0)"
| "io_slot_exists v _ = True"

text \<open>
  \<^verbatim>\<open>struct file_system_type\<close> (the members the source assigns) and
  \<^verbatim>\<open>struct proclikefs_file_system\<close>. The two singly linked lists \<open>pfs_pfo\<close> and
  \<open>pfs_pio\<close> (linked through \<^verbatim>\<open>pfo_next\<close>, \<^verbatim>\<open>pio_next\<close>) are the lists of their
  nodes' addresses, head first. Since \<^verbatim>\<open>pfo_op\<close> is the first member of a node,
  the address of a node is the address of its table. \<^verbatim>\<open>int\<close> and \<^verbatim>\<open>atomic_t\<close>
  are 32-bit words.
\<close>

record file_system_type =
  fs_name :: string
  fs_flags :: "32 word"
  get_sb :: fnptr
  kill_sb :: fnptr
  read_super :: fnptr
  fs_next :: "addr option"
  owner :: bool
  fs_supers :: "addr list"

record proclikefs_file_system =
  fs :: file_system_type
  nsuper :: "32 word"
  live :: "32 word"
  pfs_pfo :: "addr list"
  pfs_pio :: "addr list"
  name :: string

text \<open>The kernel's objects, with the members the source reads or writes.\<close>

datatype sop_ptr = SOP_driver nat | SOP_proclikefs_null
datatype iop_ptr = IOP_NULL | IOP_table addr | IOP_proclikefs_null_root

record super_block =
  s_type :: addr
  s_files :: "addr list"
  s_op :: sop_ptr
  s_root :: "addr option"

record dentry =
  d_op :: "nat option"
  d_fsdata :: "addr option"
  d_subdirs :: "addr list"
  d_inode :: "addr option"
  d_unhashed :: bool

record inode =
  i_op :: iop_ptr
  i_sb :: "addr option"

record file_struct =
  f_op :: "addr option"
  f_dentry :: "addr option"

text \<open>
  Calls into the kernel that leave no mark in the objects above are recorded in a
  trace, together with the nodes the dentry walk processes.
\<close>

datatype kind = PFS | PFO | PIO

datatype message =
    Msg_error_using_module
  | Msg_error_while_initializing "32 word" addr string

datatype event =
    Kmalloc kind addr
  | Kfree kind addr
  | Printk message
  | Register_filesystem addr
  | Unregister_filesystem addr
  | D_drop addr
  | Visit addr

datatype error = Null_deref | Use_after_free

text \<open>
  The state: the registry \<^verbatim>\<open>fs_list\<close> (head first), the allocated file systems,
  the tables by address, the next address of \<^verbatim>\<open>kmalloc\<close>, the module's use count,
  the kernel's lists and objects, the two static tables of the file, and the trace.
  An object of the kernel exists at every address; a file system exists at the
  addresses of \<open>pfs_heap\<close> only, and reading one that was freed is an error.
\<close>

record state =
  fs_list :: "addr list"
  pfs_heap :: "addr \<rightharpoonup> proclikefs_file_system"
  pfo_heap :: "addr \<Rightarrow> file_operations"
  pio_heap :: "addr \<Rightarrow> inode_operations"
  heap_next :: addr
  use_count :: int
  super_blocks :: "addr list"
  inuse_filps :: "addr list"
  sbs :: "addr \<Rightarrow> super_block"
  dentries :: "addr \<Rightarrow> dentry"
  inodes :: "addr \<Rightarrow> inode"
  files :: "addr \<Rightarrow> file_struct"
  proclikefs_null_super_operations :: super_operations
  proclikefs_null_root_inode_operations :: inode_operations
  trace :: "event list"

section \<open>The operations\<close>

definition kmalloc :: "bool \<Rightarrow> kind \<Rightarrow> state \<Rightarrow> addr option \<times> state" where
  \<comment> \<open>the kernel's allocator: it fails (null), or hands out an address it never handed
      out before; an address stands for one allocation\<close>
  "kmalloc ok k s =
     (if ok
      then (Some (heap_next s),
            s\<lparr>heap_next := Suc (heap_next s), trace := trace s @ [Kmalloc k (heap_next s)]\<rparr>)
      else (None, s))"

definition MOD_INC_USE_COUNT :: "state \<Rightarrow> state" where
  "MOD_INC_USE_COUNT s = s\<lparr>use_count := use_count s + 1\<rparr>"

definition MOD_DEC_USE_COUNT :: "state \<Rightarrow> state" where
  "MOD_DEC_USE_COUNT s = s\<lparr>use_count := use_count s - 1\<rparr>"

definition printk :: "message \<Rightarrow> state \<Rightarrow> state" where
  "printk m s = s\<lparr>trace := trace s @ [Printk m]\<rparr>"

subsection \<open>proclikefs_register_filesystem\<close>

datatype lookup = Active | Stop "addr option"

fun lookup_loop ::
  "(addr \<rightharpoonup> proclikefs_file_system) \<Rightarrow> string \<Rightarrow> addr list \<Rightarrow> addr option \<Rightarrow> error + lookup"
where
  \<comment> \<open>the \<^verbatim>\<open>for\<close> loop over \<^verbatim>\<open>fs_list\<close>; the last argument is \<^verbatim>\<open>newfs\<close>, which the
      loop assigns at every entry it looks at\<close>
  "lookup_loop H nm [] newfs = Inr (Stop newfs)"
| "lookup_loop H nm (p # rest) newfs =
     (case H p of
        None \<Rightarrow> Inl Use_after_free
      | Some f \<Rightarrow>
          if nm = name f
          then (if 0 <s live f then Inr Active else Inr (Stop (Some p)))
          else lookup_loop H nm rest (Some p))"

definition new_file_system :: "version \<Rightarrow> string \<Rightarrow> proclikefs_file_system" where
  \<comment> \<open>the assignments of the \<^verbatim>\<open>if (!newfs)\<close> block; the members assigned after the
      block are zero here\<close>
  "new_file_system v nm =
     \<lparr>fs = \<lparr>fs_name = nm, fs_flags = 0, get_sb = fn_NULL, kill_sb = fn_NULL,
            read_super = fn_NULL, fs_next = None,
            owner = (KERNEL_VERSION 2 4 0 \<le> v), fs_supers = []\<rparr>,
      nsuper = 0, live = 0, pfs_pfo = [], pfs_pio = [], name = nm\<rparr>"

definition set_callbacks ::
  "version \<Rightarrow> 32 word \<Rightarrow> fnptr \<Rightarrow> proclikefs_file_system \<Rightarrow> proclikefs_file_system"
where
  \<comment> \<open>from \<^verbatim>\<open>newfs->fs.fs_flags = fs_flags\<close> to \<^verbatim>\<open>newfs->live = 1\<close>\<close>
  "set_callbacks v flags cb f =
     (let g = (fs f)\<lparr>fs_flags := flags\<rparr>;
          g' = (if KERNEL_VERSION 2 6 0 \<le> v
                then g\<lparr>get_sb := cb, kill_sb := fn_kill_anon_super\<rparr>
                else g\<lparr>read_super := cb\<rparr>)
      in f\<lparr>fs := g', live := 1\<rparr>)"

definition proclikefs_register_filesystem ::
  "version \<Rightarrow> bool \<Rightarrow> bool \<Rightarrow> 32 word \<Rightarrow> string option \<Rightarrow> 32 word \<Rightarrow> fnptr \<Rightarrow> state
     \<Rightarrow> error + (addr option \<times> state)"
where
  \<comment> \<open>\<open>try_ok\<close>: whether \<^verbatim>\<open>try_module_get\<close> succeeds; \<open>km_ok\<close>: whether \<^verbatim>\<open>kmalloc\<close>
      succeeds; \<open>err\<close>: what the kernel's \<^verbatim>\<open>register_filesystem\<close> returns, an \<^verbatim>\<open>int\<close>,
      so that \<^verbatim>\<open>-err\<close> wraps\<close>
  "proclikefs_register_filesystem v try_ok km_ok err nm_opt flags cb s =
     (case nm_opt of
        None \<Rightarrow> Inr (None, s)
      | Some nm \<Rightarrow>
          if KERNEL_VERSION 2 6 0 \<le> v \<and> \<not> try_ok
          then Inr (None, printk Msg_error_using_module s)
          else
            let s1 = MOD_INC_USE_COUNT s in
            (case lookup_loop (pfs_heap s1) nm (fs_list s1) None of
               Inl e \<Rightarrow> Inl e
             | Inr Active \<Rightarrow> Inr (None, MOD_DEC_USE_COUNT s1)
             | Inr (Stop (Some p)) \<Rightarrow>
                 (case pfs_heap s1 p of
                    None \<Rightarrow> Inl Use_after_free
                  | Some f \<Rightarrow>
                      Inr (Some p, s1\<lparr>pfs_heap := (pfs_heap s1)(p \<mapsto> set_callbacks v flags cb f)\<rparr>))
             | Inr (Stop None) \<Rightarrow>
                 (case kmalloc km_ok PFS s1 of
                    (None, s2) \<Rightarrow> Inr (None, MOD_DEC_USE_COUNT s2)
                  | (Some p, s2) \<Rightarrow>
                      let s3 = s2\<lparr>pfs_heap := (pfs_heap s2)
                                   (p \<mapsto> set_callbacks v flags cb (new_file_system v nm)),
                                 fs_list := p # fs_list s2,
                                 trace := trace s2 @ [Register_filesystem p]\<rparr>
                      in Inr (Some p,
                              if err \<noteq> 0
                              then printk (Msg_error_while_initializing (- err) p nm) s3
                              else s3))))"

subsection \<open>proclikefs_new_file_operations, proclikefs_new_inode_operations\<close>

definition proclikefs_new_file_operations ::
  "bool \<Rightarrow> addr option \<Rightarrow> state \<Rightarrow> error + (addr option \<times> state)"
where
  \<comment> \<open>when \<^verbatim>\<open>kmalloc\<close> fails, \<^verbatim>\<open>&pfo->pfo_op\<close> is the null pointer and \<^verbatim>\<open>pfs\<close> is
      not touched\<close>
  "proclikefs_new_file_operations km_ok pfs s =
     (case kmalloc km_ok PFO s of
        (None, s1) \<Rightarrow> Inr (None, s1)
      | (Some pfo, s1) \<Rightarrow>
          (case pfs of
             None \<Rightarrow> Inl Null_deref
           | Some p \<Rightarrow>
               (case pfs_heap s1 p of
                  None \<Rightarrow> Inl Use_after_free
                | Some f \<Rightarrow>
                    Inr (Some pfo,
                         s1\<lparr>pfs_heap := (pfs_heap s1)(p \<mapsto> f\<lparr>pfs_pfo := pfo # pfs_pfo f\<rparr>),
                            pfo_heap := (pfo_heap s1)(pfo := (\<lambda>_. fn_NULL))\<rparr>))))"

definition proclikefs_new_inode_operations ::
  "bool \<Rightarrow> addr option \<Rightarrow> state \<Rightarrow> error + (addr option \<times> state)"
where
  "proclikefs_new_inode_operations km_ok pfs s =
     (case kmalloc km_ok PIO s of
        (None, s1) \<Rightarrow> Inr (None, s1)
      | (Some pio, s1) \<Rightarrow>
          (case pfs of
             None \<Rightarrow> Inl Null_deref
           | Some p \<Rightarrow>
               (case pfs_heap s1 p of
                  None \<Rightarrow> Inl Use_after_free
                | Some f \<Rightarrow>
                    Inr (Some pio,
                         s1\<lparr>pfs_heap := (pfs_heap s1)(p \<mapsto> f\<lparr>pfs_pio := pio # pfs_pio f\<rparr>),
                            pio_heap := (pio_heap s1)(pio := (\<lambda>_. fn_NULL))\<rparr>))))"

subsection \<open>proclikefs_read_super, proclikefs_put_super\<close>

definition proclikefs_read_super :: "version \<Rightarrow> bool \<Rightarrow> addr \<Rightarrow> state \<Rightarrow> error + state" where
  "proclikefs_read_super v try_ok sb s =
     (let pfs = s_type (sbs s sb) in
      case pfs_heap s pfs of
        None \<Rightarrow> Inl Use_after_free
      | Some f \<Rightarrow>
          let s1 = s\<lparr>pfs_heap := (pfs_heap s)(pfs \<mapsto> f\<lparr>nsuper := nsuper f + 1\<rparr>)\<rparr> in
          if KERNEL_VERSION 2 6 0 \<le> v \<and> \<not> try_ok
          then Inr (printk Msg_error_using_module s1)
          else Inr (MOD_INC_USE_COUNT s1))"

definition kfree_all :: "kind \<Rightarrow> addr list \<Rightarrow> state \<Rightarrow> state" where
  \<comment> \<open>\<^verbatim>\<open>while ((pfo = pfs->pfs_pfo)) { pfs->pfs_pfo = pfo->pfo_next; kfree(pfo); }\<close>\<close>
  "kfree_all k xs s = s\<lparr>trace := trace s @ map (Kfree k) xs\<rparr>"

definition proclikefs_put_super :: "addr \<Rightarrow> state \<Rightarrow> error + state" where
  "proclikefs_put_super sb s =
     (let pfs = s_type (sbs s sb) in
      case pfs_heap s pfs of
        None \<Rightarrow> Inl Use_after_free
      | Some f \<Rightarrow>
          let f1 = f\<lparr>nsuper := nsuper f - 1\<rparr>;
              s1 = MOD_DEC_USE_COUNT (s\<lparr>pfs_heap := (pfs_heap s)(pfs \<mapsto> f1)\<rparr>)
          in
          if live f1 = 0 \<and> nsuper f1 = 0
          then
            let s2 = s1\<lparr>fs_list := removeAll pfs (fs_list s1),
                       trace := trace s1 @ [Unregister_filesystem pfs]\<rparr>;
                s3 = kfree_all PFO (pfs_pfo f1) s2;
                s4 = kfree_all PIO (pfs_pio f1) s3
            in Inr (s4\<lparr>pfs_heap := (pfs_heap s4)(pfs := None),
                       trace := trace s4 @ [Kfree PFS pfs]\<rparr>)
          else Inr s1)"

subsection \<open>proclikefs_kill_super\<close>

definition d_drop :: "addr \<Rightarrow> state \<Rightarrow> state" where
  \<comment> \<open>the kernel's \<^verbatim>\<open>d_drop\<close>, which is not part of this source: it unhashes the
      dentry, so that no lookup finds it; the dentry stays on its parent's
      \<^verbatim>\<open>d_subdirs\<close>\<close>
  "d_drop child s =
     s\<lparr>dentries := (dentries s)(child := (dentries s child)\<lparr>d_unhashed := True\<rparr>),
       trace := trace s @ [D_drop child]\<rparr>"

fun kill_files :: "addr option \<Rightarrow> addr list \<Rightarrow> state \<Rightarrow> state" where
  \<comment> \<open>the loop over \<^verbatim>\<open>sb->s_files\<close>\<close>
  "kill_files dummy [] s = s"
| "kill_files dummy (filp # rest) s =
     kill_files dummy rest (s\<lparr>files := (files s)(filp := (files s filp)\<lparr>f_op := dummy\<rparr>)\<rparr>)"

fun prepend_children :: "addr list \<Rightarrow> addr option \<Rightarrow> state \<Rightarrow> addr option \<times> state" where
  \<comment> \<open>the inner \<^verbatim>\<open>while\<close> loop over \<^verbatim>\<open>active->d_subdirs\<close>; the second argument is
      \<^verbatim>\<open>dentry_tree\<close>\<close>
  "prepend_children [] dentry_tree s = (dentry_tree, s)"
| "prepend_children (child # rest) dentry_tree s =
     (let s1 = d_drop child s;
          s2 = s1\<lparr>dentries := (dentries s1)(child := (dentries s1 child)\<lparr>d_fsdata := dentry_tree\<rparr>)\<rparr>
      in prepend_children rest (Some child) s2)"

definition process_dentry :: "addr \<Rightarrow> state \<Rightarrow> addr option \<times> state" where
  \<comment> \<open>one round of the outer \<^verbatim>\<open>while (dentry_tree)\<close> loop\<close>
  "process_dentry active s =
     (let s1 = s\<lparr>dentries := (dentries s)(active := (dentries s active)\<lparr>d_op := None\<rparr>),
                trace := trace s @ [Visit active]\<rparr>;
          dentry_tree = d_fsdata (dentries s1 active)
      in prepend_children (d_subdirs (dentries s1 active)) dentry_tree s1)"

partial_function (option) kill_dentries :: "addr option \<Rightarrow> state \<Rightarrow> state option" where
  \<comment> \<open>the outer loop; it need not end when the \<^verbatim>\<open>d_subdirs\<close> lists form a cycle\<close>
  "kill_dentries dentry_tree s =
     (case dentry_tree of
        None \<Rightarrow> Some s
      | Some active \<Rightarrow>
          (case process_dentry active s of (dentry_tree', s') \<Rightarrow> kill_dentries dentry_tree' s'))"

declare kill_dentries.simps [code]

definition proclikefs_kill_super ::
  "version \<Rightarrow> addr \<Rightarrow> addr option \<Rightarrow> state \<Rightarrow> (error + state) option"
where
  \<comment> \<open>\<open>None\<close>: the dentry loop does not end. The last statement dereferences
      \<^verbatim>\<open>sb->s_root\<close> and its \<^verbatim>\<open>d_inode\<close> without a test.\<close>
  "proclikefs_kill_super v sb dummy s =
     (let s1 = (if KERNEL_VERSION 2 4 0 \<le> v then kill_files dummy (s_files (sbs s sb)) s else s);
          s2 = s1\<lparr>sbs := (sbs s1)(sb := (sbs s1 sb)\<lparr>s_op := SOP_proclikefs_null\<rparr>)\<rparr>;
          dentry_tree = s_root (sbs s2 sb);
          s3 = (case dentry_tree of
                  None \<Rightarrow> s2
                | Some r \<Rightarrow> s2\<lparr>dentries := (dentries s2)(r := (dentries s2 r)\<lparr>d_fsdata := None\<rparr>)\<rparr>)
      in case kill_dentries dentry_tree s3 of
           None \<Rightarrow> None
         | Some s4 \<Rightarrow>
             Some (case s_root (sbs s4 sb) of
                     None \<Rightarrow> Inl Null_deref
                   | Some r \<Rightarrow>
                       (case d_inode (dentries s4 r) of
                          None \<Rightarrow> Inl Null_deref
                        | Some i \<Rightarrow>
                            Inr (s4\<lparr>inodes := (inodes s4)
                                      (i := (inodes s4 i)\<lparr>i_op := IOP_proclikefs_null_root\<rparr>)\<rparr>))))"

subsection \<open>proclikefs_unregister_filesystem\<close>

definition clear_file_operations :: "version \<Rightarrow> file_operations \<Rightarrow> file_operations" where
  \<comment> \<open>the body of the loop over \<^verbatim>\<open>pfs->pfs_pfo\<close>, one assignment after the other\<close>
  "clear_file_operations v fo =
     (let fo1 = fo(FO_llseek := fn_return_EIO, FO_read := fn_return_EIO,
                   FO_write := fn_return_EIO, FO_readdir := fn_return_EIO,
                   FO_poll := fn_return_EIO, FO_ioctl := fn_return_EIO,
                   FO_mmap := fn_return_EIO, FO_open := fn_return_EIO,
                   FO_flush := fn_return_EIO, FO_release := fn_return_EIO,
                   FO_fsync := fn_return_EIO, FO_fasync := fn_return_EIO,
                   FO_lock := fn_return_EIO, FO_readv := fn_return_EIO,
                   FO_writev := fn_return_EIO, FO_sendpage := fn_return_EIO,
                   FO_get_unmapped_area := fn_return_EIO)
      in if KERNEL_VERSION 2 6 0 \<le> v
         then fo1(FO_aio_read := fn_return_EIO, FO_aio_write := fn_return_EIO,
                  FO_unlocked_ioctl := fn_return_EIO, FO_compat_ioctl := fn_return_EIO,
                  FO_aio_fsync := fn_return_EIO, FO_sendfile := fn_return_EIO,
                  FO_check_flags := fn_return_EIO, FO_flock := fn_return_EIO)
         else fo1)"

definition clear_inode_operations :: "version \<Rightarrow> inode_operations \<Rightarrow> inode_operations" where
  \<comment> \<open>the body of the loop over \<^verbatim>\<open>pfs->pfs_pio\<close>\<close>
  "clear_inode_operations v io =
     (let io1 = io(IO_create := fn_return_EIO, IO_lookup := fn_return_EIO,
                   IO_link := fn_return_EIO, IO_unlink := fn_return_EIO,
                   IO_symlink := fn_return_EIO, IO_mkdir := fn_return_EIO,
                   IO_rmdir := fn_return_EIO, IO_mknod := fn_return_EIO,
                   IO_rename := fn_return_EIO, IO_readlink := fn_return_EIO);
          io2 = (if KERNEL_VERSION 2 6 16 \<le> v
                 then io1(IO_follow_link := fn_NULL)
                 else io1(IO_follow_link := fn_bad_follow_link));
          io3 = io2(IO_truncate := fn_return_EIO, IO_permission := fn_return_EIO,
                    IO_setattr := fn_return_EIO, IO_getattr := fn_return_EIO);
          io4 = (if KERNEL_VERSION 2 4 20 \<le> v
                 then io3(IO_setxattr := fn_return_EIO, IO_getxattr := fn_return_EIO,
                          IO_listxattr := fn_return_EIO, IO_removexattr := fn_return_EIO)
                 else io3)
      in if KERNEL_VERSION 2 6 0 \<le> v
         then io4(IO_put_link := fn_return_EIO)
         else io4(IO_revalidate := fn_return_EIO))"

fun clear_pfo :: "version \<Rightarrow> addr list \<Rightarrow> state \<Rightarrow> state" where
  "clear_pfo v [] s = s"
| "clear_pfo v (pfo # rest) s =
     clear_pfo v rest (s\<lparr>pfo_heap := (pfo_heap s)(pfo := clear_file_operations v (pfo_heap s pfo))\<rparr>)"

fun clear_pio :: "version \<Rightarrow> addr list \<Rightarrow> state \<Rightarrow> state" where
  "clear_pio v [] s = s"
| "clear_pio v (pio # rest) s =
     clear_pio v rest (s\<lparr>pio_heap := (pio_heap s)(pio := clear_inode_operations v (pio_heap s pio))\<rparr>)"

fun clear_inuse_filps :: "addr \<Rightarrow> addr option \<Rightarrow> addr list \<Rightarrow> state \<Rightarrow> state" where
  \<comment> \<open>the loop over \<^verbatim>\<open>inuse_filps\<close> of the kernels before 2.4.0\<close>
  "clear_inuse_filps pfs dummy [] s = s"
| "clear_inuse_filps pfs dummy (filp # rest) s =
     clear_inuse_filps pfs dummy rest
       (case f_dentry (files s filp) of
          None \<Rightarrow> s
        | Some dentry \<Rightarrow>
            (case d_inode (dentries s dentry) of
               None \<Rightarrow> s
             | Some inode \<Rightarrow>
                 (case i_sb (inodes s inode) of
                    None \<Rightarrow> s
                  | Some sb \<Rightarrow>
                      if s_type (sbs s sb) \<noteq> pfs then s
                      else s\<lparr>files := (files s)(filp := (files s filp)\<lparr>f_op := dummy\<rparr>)\<rparr>)))"

fun kill_fs_supers :: "version \<Rightarrow> addr option \<Rightarrow> addr list \<Rightarrow> state \<Rightarrow> (error + state) option" where
  \<comment> \<open>the loop over \<^verbatim>\<open>pfs->fs.fs_supers\<close> (from 2.4.10)\<close>
  "kill_fs_supers v dummy [] s = Some (Inr s)"
| "kill_fs_supers v dummy (sb # rest) s =
     (case proclikefs_kill_super v sb dummy s of
        None \<Rightarrow> None
      | Some (Inl e) \<Rightarrow> Some (Inl e)
      | Some (Inr s') \<Rightarrow> kill_fs_supers v dummy rest s')"

fun kill_super_blocks ::
  "version \<Rightarrow> addr \<Rightarrow> addr option \<Rightarrow> addr list \<Rightarrow> state \<Rightarrow> (error + state) option"
where
  \<comment> \<open>the loop over the global \<^verbatim>\<open>super_blocks\<close> (before 2.4.10)\<close>
  "kill_super_blocks v pfs dummy [] s = Some (Inr s)"
| "kill_super_blocks v pfs dummy (sb # rest) s =
     (if s_type (sbs s sb) \<noteq> pfs then kill_super_blocks v pfs dummy rest s
      else
        (case proclikefs_kill_super v sb dummy s of
           None \<Rightarrow> None
         | Some (Inl e) \<Rightarrow> Some (Inl e)
         | Some (Inr s') \<Rightarrow> kill_super_blocks v pfs dummy rest s'))"

definition retire :: "version \<Rightarrow> proclikefs_file_system \<Rightarrow> proclikefs_file_system" where
  \<comment> \<open>\<^verbatim>\<open>pfs->live = 0\<close> and, before 2.6.0, the null \<^verbatim>\<open>read_super\<close>\<close>
  "retire v f =
     (if v < KERNEL_VERSION 2 6 0
      then f\<lparr>live := 0, fs := (fs f)\<lparr>read_super := fn_proclikefs_null_read_super\<rparr>\<rparr>
      else f\<lparr>live := 0\<rparr>)"

definition proclikefs_unregister_filesystem ::
  "version \<Rightarrow> addr option \<Rightarrow> state \<Rightarrow> (error + state) option"
where
  \<comment> \<open>\<open>dummy\<close> is \<^verbatim>\<open>&pfs->pfs_pfo->pfo_op\<close>: the first table of the list, null when the
      list is empty\<close>
  "proclikefs_unregister_filesystem v pfs_opt s =
     (case pfs_opt of
        None \<Rightarrow> Some (Inr s)
      | Some pfs \<Rightarrow>
          (case pfs_heap s pfs of
             None \<Rightarrow> Some (Inl Use_after_free)
           | Some f \<Rightarrow>
               let s1 = clear_pfo v (pfs_pfo f) s;
                   s2 = clear_pio v (pfs_pio f) s1;
                   dummy = (case pfs_pfo f of [] \<Rightarrow> None | pfo # _ \<Rightarrow> Some pfo);
                   s3 = (if KERNEL_VERSION 2 4 0 \<le> v then s2
                         else clear_inuse_filps pfs dummy (inuse_filps s2) s2)
               in
               (case (if KERNEL_VERSION 2 4 10 \<le> v
                      then kill_fs_supers v dummy (fs_supers (fs f)) s3
                      else kill_super_blocks v pfs dummy (super_blocks s3) s3) of
                  None \<Rightarrow> None
                | Some (Inl e) \<Rightarrow> Some (Inl e)
                | Some (Inr s4) \<Rightarrow>
                    (case pfs_heap s4 pfs of
                       None \<Rightarrow> Some (Inl Use_after_free)
                     | Some f4 \<Rightarrow>
                         Some (Inr (MOD_DEC_USE_COUNT
                                 (s4\<lparr>pfs_heap := (pfs_heap s4)(pfs \<mapsto> retire v f4)\<rparr>)))))))"

subsection \<open>init_module\<close>

definition init_module :: "state \<Rightarrow> state" where
  "init_module s =
     s\<lparr>proclikefs_null_super_operations :=
         (proclikefs_null_super_operations s)
           (SO_read_inode := fn_proclikefs_read_inode, SO_put_super := fn_proclikefs_put_super),
       proclikefs_null_root_inode_operations :=
         (proclikefs_null_root_inode_operations s)(IO_lookup := fn_proclikefs_null_root_lookup)\<rparr>"

section \<open>Runs, example states and the predicates of the properties\<close>

text \<open>
  A run is a list of calls of the exported functions, made one after the other. The
  arguments that the kernel decides (whether \<^verbatim>\<open>try_module_get\<close> and \<^verbatim>\<open>kmalloc\<close>
  succeed, what \<^verbatim>\<open>register_filesystem\<close> returns) are part of the call.
\<close>

datatype call =
    Register bool bool "32 word" "string option" "32 word" fnptr
  | Unregister "addr option"
  | New_file_operations bool "addr option"
  | New_inode_operations bool "addr option"
  | Read_super bool addr
  | Put_super addr

fun call_step :: "version \<Rightarrow> call \<Rightarrow> state \<Rightarrow> (error + state) option" where
  "call_step v (Register try_ok km_ok err nm flags cb) s =
     Some (map_sum id snd (proclikefs_register_filesystem v try_ok km_ok err nm flags cb s))"
| "call_step v (Unregister pfs) s = proclikefs_unregister_filesystem v pfs s"
| "call_step v (New_file_operations km_ok pfs) s =
     Some (map_sum id snd (proclikefs_new_file_operations km_ok pfs s))"
| "call_step v (New_inode_operations km_ok pfs) s =
     Some (map_sum id snd (proclikefs_new_inode_operations km_ok pfs s))"
| "call_step v (Read_super try_ok sb) s = Some (proclikefs_read_super v try_ok sb s)"
| "call_step v (Put_super sb) s = Some (proclikefs_put_super sb s)"

fun run :: "version \<Rightarrow> call list \<Rightarrow> state \<Rightarrow> (error + state) option" where
  "run v [] s = Some (Inr s)"
| "run v (c # cs) s =
     (case call_step v c s of
        None \<Rightarrow> None
      | Some (Inl e) \<Rightarrow> Some (Inl e)
      | Some (Inr s') \<Rightarrow> run v cs s')"

definition observe :: "(state \<Rightarrow> 'a) \<Rightarrow> (error + state) option \<Rightarrow> (error + 'a) option" where
  "observe g r = map_option (map_sum id g) r"

text \<open>
  The state of a freshly loaded module: nothing registered, nothing allocated, and
  \<^verbatim>\<open>init_module\<close> done. Every super block of this example state belongs to the file
  system at address 0, the first address \<open>kmalloc\<close> hands out.
\<close>

definition zero_state :: state where
  "zero_state =
     \<lparr>fs_list = [], pfs_heap = Map.empty, pfo_heap = (\<lambda>_ _. fn_NULL),
      pio_heap = (\<lambda>_ _. fn_NULL), heap_next = 0, use_count = 0,
      super_blocks = [], inuse_filps = [],
      sbs = (\<lambda>_. \<lparr>s_type = 0, s_files = [], s_op = SOP_driver 0, s_root = None\<rparr>),
      dentries = (\<lambda>_. \<lparr>d_op = None, d_fsdata = None, d_subdirs = [], d_inode = None,
                        d_unhashed = False\<rparr>),
      inodes = (\<lambda>_. \<lparr>i_op = IOP_NULL, i_sb = None\<rparr>),
      files = (\<lambda>_. \<lparr>f_op = None, f_dentry = None\<rparr>),
      proclikefs_null_super_operations = (\<lambda>_. fn_NULL),
      proclikefs_null_root_inode_operations = (\<lambda>_. fn_NULL),
      trace = []\<rparr>"

definition boot :: state where
  "boot = init_module zero_state"

definition module_loaded :: "state \<Rightarrow> bool" where
  \<comment> \<open>the two static tables are as \<open>init_module\<close> leaves them, from the zeroes of static
      storage\<close>
  "module_loaded s =
     (proclikefs_null_super_operations s = proclikefs_null_super_operations boot \<and>
      proclikefs_null_root_inode_operations s = proclikefs_null_root_inode_operations boot)"

definition v26 :: version where
  "v26 = KERNEL_VERSION 2 6 16"

definition fs_a :: proclikefs_file_system where
  \<comment> \<open>the file system \<open>a\<close> as \<open>proclikefs_register_filesystem\<close> creates it\<close>
  "fs_a = set_callbacks v26 0 (fn_driver 0) (new_file_system v26 ''a'')"

definition registered_a :: state where
  \<comment> \<open>after \<^verbatim>\<open>proclikefs_register_filesystem("a", 0, get_sb)\<close>\<close>
  "registered_a =
     boot\<lparr>fs_list := [0], pfs_heap := [0 \<mapsto> fs_a], heap_next := 1, use_count := 1,
          trace := [Kmalloc PFS 0, Register_filesystem 0]\<rparr>"

definition mounted_a :: state where
  \<comment> \<open>then one table of each kind and one \<^verbatim>\<open>proclikefs_read_super\<close>\<close>
  "mounted_a =
     registered_a\<lparr>pfs_heap := [0 \<mapsto> fs_a\<lparr>nsuper := 1, pfs_pfo := [1], pfs_pio := [2]\<rparr>],
                  heap_next := 3, use_count := 2,
                  trace := [Kmalloc PFS 0, Register_filesystem 0, Kmalloc PFO 1, Kmalloc PIO 2]\<rparr>"

definition retired_a :: state where
  \<comment> \<open>then \<^verbatim>\<open>proclikefs_unregister_filesystem\<close>\<close>
  "retired_a =
     mounted_a\<lparr>pfs_heap := [0 \<mapsto> fs_a\<lparr>nsuper := 1, live := 0, pfs_pfo := [1], pfs_pio := [2]\<rparr>],
               pfo_heap := (pfo_heap mounted_a)(1 := clear_file_operations v26 (\<lambda>_. fn_NULL)),
               pio_heap := (pio_heap mounted_a)(2 := clear_inode_operations v26 (\<lambda>_. fn_NULL)),
               use_count := 1\<rparr>"

definition calls_register_a :: "call list" where
  "calls_register_a = [Register True True 0 (Some ''a'') 0 (fn_driver 0)]"

definition calls_mount_a :: "call list" where
  "calls_mount_a =
     calls_register_a @ [New_file_operations True (Some 0), New_inode_operations True (Some 0),
                         Read_super True 5]"

definition calls_retire_a :: "call list" where
  "calls_retire_a = calls_mount_a @ [Unregister (Some 0)]"

text \<open>The registry as the data model describes it.\<close>

definition fs_list_valid :: "state \<Rightarrow> bool" where
  \<comment> \<open>every entry of the registry is an allocated file system\<close>
  "fs_list_valid s = (\<forall>p\<in>set (fs_list s). pfs_heap s p \<noteq> None)"

definition unique_names :: "state \<Rightarrow> bool" where
  \<comment> \<open>the registry is keyed by name\<close>
  "unique_names s =
     (\<forall>p\<in>set (fs_list s). \<forall>q\<in>set (fs_list s). \<forall>f g.
        pfs_heap s p = Some f \<and> pfs_heap s q = Some g \<and> name f = name g \<longrightarrow> p = q)"

definition names_of :: "state \<Rightarrow> addr \<Rightarrow> string option" where
  "names_of s p = map_option name (pfs_heap s p)"

fun walk_event :: "event \<Rightarrow> bool" where
  "walk_event (D_drop _) = True"
| "walk_event (Visit _) = True"
| "walk_event _ = False"

definition same_inputs :: "state \<Rightarrow> state \<Rightarrow> bool" where
  \<comment> \<open>the members of the kernel's objects that \<open>proclikefs_unregister_filesystem\<close>
      reads and never writes are the same in both states\<close>
  "same_inputs s t =
     ((\<forall>a. s_type (sbs t a) = s_type (sbs s a) \<and> s_files (sbs t a) = s_files (sbs s a) \<and>
           s_root (sbs t a) = s_root (sbs s a)) \<and>
      (\<forall>a. d_subdirs (dentries t a) = d_subdirs (dentries s a) \<and>
           d_inode (dentries t a) = d_inode (dentries s a)) \<and>
      (\<forall>a. i_sb (inodes t a) = i_sb (inodes s a)) \<and>
      (\<forall>a. f_dentry (files t a) = f_dentry (files s a)))"

definition kernel_only :: "state \<Rightarrow> state \<Rightarrow> bool" where
  \<comment> \<open>the second state differs from the first only in the members of the kernel's
      objects that the walk writes, and in the events of the walk\<close>
  "kernel_only s s' =
     (fs_list s' = fs_list s \<and> pfs_heap s' = pfs_heap s \<and> pfo_heap s' = pfo_heap s \<and>
      pio_heap s' = pio_heap s \<and> heap_next s' = heap_next s \<and> use_count s' = use_count s \<and>
      super_blocks s' = super_blocks s \<and> inuse_filps s' = inuse_filps s \<and>
      proclikefs_null_super_operations s' = proclikefs_null_super_operations s \<and>
      proclikefs_null_root_inode_operations s' = proclikefs_null_root_inode_operations s \<and>
      same_inputs s s' \<and>
      (\<exists>evs. (\<forall>e\<in>set evs. walk_event e) \<and> trace s' = trace s @ evs))"

section \<open>Dentry trees\<close>

text \<open>
  The shape of the dentries below a root, as the \<^verbatim>\<open>d_subdirs\<close> lists give it: a
  tree of addresses. A heap of dentries represents a tree when every node's
  \<^verbatim>\<open>d_subdirs\<close> is the list of its children, in order.
\<close>

datatype dtree = DNode addr "dtree list"


fun nodes :: "dtree \<Rightarrow> addr list" where
  "nodes (DNode a ts) = a # concat (map nodes ts)"

definition fnodes :: "dtree list \<Rightarrow> addr list" where
  "fnodes ws = concat (map nodes ws)"



fun visit_of :: "event \<Rightarrow> addr list" where
  "visit_of (Visit a) = [a]"
| "visit_of _ = []"

fun drop_of :: "event \<Rightarrow> addr list" where
  "drop_of (D_drop a) = [a]"
| "drop_of _ = []"

definition visits :: "event list \<Rightarrow> addr list" where
  \<comment> \<open>the dentries the walk processed, in order\<close>
  "visits evs = concat (map visit_of evs)"

definition drops :: "event list \<Rightarrow> addr list" where
  \<comment> \<open>the dentries handed to \<^verbatim>\<open>d_drop\<close>, in order\<close>
  "drops evs = concat (map drop_of evs)"


definition planted_a :: state where
  \<comment> \<open>\<open>mounted_a\<close> with the super block 5 mounted: one open file and the dentries of
      \<open>tree_a\<close>, whose \<^verbatim>\<open>d_fsdata\<close> hold data of the driver\<close>
  "planted_a =
     mounted_a\<lparr>
       pfs_heap := [0 \<mapsto> fs_a\<lparr>fs := (fs fs_a)\<lparr>fs_supers := [5]\<rparr>, nsuper := 1,
                               pfs_pfo := [1], pfs_pio := [2]\<rparr>],
       sbs := (sbs mounted_a)
                (5 := \<lparr>s_type = 0, s_files = [30], s_op = SOP_driver 0, s_root = Some 10\<rparr>),
       dentries := (dentries mounted_a)
                (10 := \<lparr>d_op = Some 1, d_fsdata = Some 99, d_subdirs = [11, 12],
                        d_inode = Some 20, d_unhashed = False\<rparr>,
                 11 := \<lparr>d_op = Some 1, d_fsdata = Some 98, d_subdirs = [13, 14],
                        d_inode = Some 21, d_unhashed = False\<rparr>,
                 12 := \<lparr>d_op = Some 1, d_fsdata = None, d_subdirs = [],
                        d_inode = Some 22, d_unhashed = False\<rparr>,
                 13 := \<lparr>d_op = Some 1, d_fsdata = Some 10, d_subdirs = [],
                        d_inode = None, d_unhashed = False\<rparr>,
                 14 := \<lparr>d_op = None, d_fsdata = None, d_subdirs = [],
                        d_inode = Some 24, d_unhashed = True\<rparr>),
       inodes := (inodes mounted_a)(20 := \<lparr>i_op = IOP_table 2, i_sb = Some 5\<rparr>),
       files := (files mounted_a)(30 := \<lparr>f_op = Some 1, f_dentry = Some 12\<rparr>)\<rparr>"

section \<open>Tables allocated and freed\<close>

fun alloc_of :: "event \<Rightarrow> addr list" where
  "alloc_of (Kmalloc PFO a) = [a]"
| "alloc_of (Kmalloc PIO a) = [a]"
| "alloc_of _ = []"

fun free_of :: "event \<Rightarrow> addr list" where
  "free_of (Kfree PFO a) = [a]"
| "free_of (Kfree PIO a) = [a]"
| "free_of _ = []"

definition allocated_tables :: "event list \<Rightarrow> addr list" where
  \<comment> \<open>the tables that \<open>proclikefs_new_file_operations\<close> and
      \<open>proclikefs_new_inode_operations\<close> allocated, in order\<close>
  "allocated_tables tr = concat (map alloc_of tr)"

definition freed_tables :: "event list \<Rightarrow> addr list" where
  \<comment> \<open>the tables handed to \<^verbatim>\<open>kfree\<close>, in order\<close>
  "freed_tables tr = concat (map free_of tr)"

definition table_lists :: "state \<Rightarrow> addr \<Rightarrow> addr list option" where
  \<comment> \<open>the tables of an allocated file system\<close>
  "table_lists s p = map_option (\<lambda>f. pfs_pfo f @ pfs_pio f) (pfs_heap s p)"

definition owned :: "(addr \<Rightarrow> addr list option) \<Rightarrow> addr set" where
  "owned tbl = {t. \<exists>p ts. tbl p = Some ts \<and> t \<in> set ts}"

definition owned_tables :: "state \<Rightarrow> addr set" where
  \<comment> \<open>the tables on the list of some allocated file system\<close>
  "owned_tables s = owned (table_lists s)"

definition inv_view ::
  "addr list \<Rightarrow> addr list \<Rightarrow> addr \<Rightarrow> (addr \<Rightarrow> addr list option) \<Rightarrow> addr set \<Rightarrow> bool"
where
  "inv_view al fr n tbl reg =
     (distinct al \<and> (\<forall>a\<in>set al. a < n) \<and> distinct fr \<and> set fr \<inter> owned tbl = {} \<and>
      set al = set fr \<union> owned tbl \<and>
      (\<forall>p ts. tbl p = Some ts \<longrightarrow> distinct ts) \<and>
      (\<forall>p q ts us. p \<noteq> q \<and> tbl p = Some ts \<and> tbl q = Some us \<longrightarrow> set ts \<inter> set us = {}) \<and>
      reg = {p. tbl p \<noteq> None} \<and> (\<forall>p\<in>reg. p < n))"

definition tables_inv :: "state \<Rightarrow> bool" where
  \<comment> \<open>the bookkeeping that every run from a freshly loaded module keeps: the registry
      lists the allocated file systems, each table is on one list once, and the
      allocated tables are the freed ones and the listed ones\<close>
  "tables_inv s =
     inv_view (allocated_tables (trace s)) (freed_tables (trace s)) (heap_next s)
       (table_lists s) (set (fs_list s))"

definition same_view :: "state \<Rightarrow> state \<Rightarrow> bool" where
  \<comment> \<open>two states with the same bookkeeping of tables\<close>
  "same_view s s' =
     (allocated_tables (trace s') = allocated_tables (trace s) \<and>
      freed_tables (trace s') = freed_tables (trace s) \<and> heap_next s' = heap_next s \<and>
      table_lists s' = table_lists s \<and> set (fs_list s') = set (fs_list s))"

fun outstanding :: "call list \<Rightarrow> addr list \<Rightarrow> addr list option" where
  \<comment> \<open>the super blocks acquired and not yet released; \<open>None\<close> when a release has no
      acquire before it\<close>
  "outstanding [] held = Some held"
| "outstanding (Read_super try_ok sb # cs) held = outstanding cs (sb # held)"
| "outstanding (Put_super sb # cs) held =
     (if sb \<in> set held then outstanding cs (remove1 sb held) else None)"
| "outstanding (c # cs) held = outstanding cs held"

definition balanced :: "call list \<Rightarrow> bool" where
  \<comment> \<open>every release matches an earlier acquire and every acquire is released\<close>
  "balanced cs = (outstanding cs [] = Some [])"

definition calls_leak :: "call list" where
  "calls_leak =
     calls_register_a @ [New_file_operations True (Some 0), Read_super True 5, Put_super 5,
                         Unregister (Some 0)]"

definition calls_reclaim_a :: "call list" where
  "calls_reclaim_a = calls_retire_a @ [Put_super 5]"

definition reclaimed_a :: state where
  \<comment> \<open>\<open>retired_a\<close> after the \<open>proclikefs_put_super\<close> of its one super block\<close>
  "reclaimed_a =
     retired_a\<lparr>fs_list := [], pfs_heap := Map.empty, use_count := 0,
               trace := trace retired_a @
                 [Unregister_filesystem 0, Kfree PFO 1, Kfree PIO 2, Kfree PFS 0]\<rparr>"

section \<open>Two runs of proclikefs_unregister_filesystem\<close>

text \<open>
  To compare a second run with the first, the states of the second run are related to
  the states of the first, step by step. \<open>S\<close> is the state in which the first run
  ends: a member that the second run has not written yet holds the value of \<open>S\<close>, a
  member that it has written holds what the first run wrote at the same step.
\<close>

definition either :: "'a \<Rightarrow> 'a \<Rightarrow> 'a \<Rightarrow> bool" where
  "either x y z = (x = y \<or> x = z)"

definition settled :: "state \<Rightarrow> state \<Rightarrow> state \<Rightarrow> bool" where
  "settled S s t =
     (\<forall>a. either (d_op (dentries t a)) (d_op (dentries s a)) (d_op (dentries S a)) \<and>
          either (d_fsdata (dentries t a)) (d_fsdata (dentries s a)) (d_fsdata (dentries S a)) \<and>
          either (d_unhashed (dentries t a)) (d_unhashed (dentries s a))
            (d_unhashed (dentries S a)) \<and>
          either (s_op (sbs t a)) (s_op (sbs s a)) (s_op (sbs S a)) \<and>
          either (i_op (inodes t a)) (i_op (inodes s a)) (i_op (inodes S a)) \<and>
          either (f_op (files t a)) (f_op (files s a)) (f_op (files S a)))"

definition follows :: "state \<Rightarrow> state \<Rightarrow> state \<Rightarrow> bool" where
  \<comment> \<open>\<open>t\<close>, of the second run, goes with \<open>s\<close>, of the first run\<close>
  "follows S s t = (same_inputs s t \<and> settled S s t)"

definition linked :: "addr set \<Rightarrow> addr option \<Rightarrow> state \<Rightarrow> state \<Rightarrow> bool" where
  \<comment> \<open>\<open>W\<close> holds the dentries whose \<^verbatim>\<open>d_fsdata\<close> this walk has written: there the two
      runs agree, \<^verbatim>\<open>dentry_tree\<close> points there, and the links stay there\<close>
  "linked W dt s t =
     ((\<forall>a\<in>W. d_fsdata (dentries t a) = d_fsdata (dentries s a)) \<and>
      (\<forall>a. dt = Some a \<longrightarrow> a \<in> W) \<and>
      (\<forall>a\<in>W. \<forall>b. d_fsdata (dentries s a) = Some b \<longrightarrow> b \<in> W))"

section \<open>Properties\<close>

subsection \<open>The example states are reached by runs\<close>

lemmas example_defs =
  zero_state_def boot_def v26_def fs_a_def registered_a_def mounted_a_def retired_a_def
  calls_register_a_def calls_mount_a_def calls_retire_a_def
  init_module_def KERNEL_VERSION_def

lemmas op_defs =
  proclikefs_register_filesystem_def proclikefs_new_file_operations_def
  proclikefs_new_inode_operations_def proclikefs_read_super_def proclikefs_put_super_def
  proclikefs_unregister_filesystem_def proclikefs_kill_super_def
  MOD_INC_USE_COUNT_def MOD_DEC_USE_COUNT_def printk_def kmalloc_def kfree_all_def
  set_callbacks_def new_file_system_def retire_def Let_def
  numeral_2_eq_2 [symmetric] numeral_3_eq_3 [symmetric] fun_upd_idem_iff

lemma run_register_a: "run v26 calls_register_a boot = Some (Inr registered_a)"
  by (simp add: example_defs op_defs)

lemma run_mount_a: "run v26 calls_mount_a boot = Some (Inr mounted_a)"
  by (simp add: example_defs op_defs)

lemma run_retire_a: "run v26 calls_retire_a boot = Some (Inr retired_a)"
  by (simp add: example_defs op_defs)

subsection \<open>What the walk and the loops over super blocks leave alone\<close>

lemma kernel_only_refl: "kernel_only s s"
  by (simp add: kernel_only_def same_inputs_def)

lemma same_inputs_trans: "same_inputs s t \<Longrightarrow> same_inputs t u \<Longrightarrow> same_inputs s u"
  by (simp add: same_inputs_def)

lemma kernel_only_trans: "kernel_only s t \<Longrightarrow> kernel_only t u \<Longrightarrow> kernel_only s u"
  unfolding kernel_only_def
  by (elim conjE exE, intro conjI; (simp; fail)?)
     (blast intro: same_inputs_trans, metis append.assoc set_append Un_iff)

lemma kernel_only_kill_files: "kernel_only s (kill_files dummy fl s)"
proof (induction fl arbitrary: s)
  case Nil
  show ?case by (simp add: kernel_only_refl)
next
  case (Cons filp rest)
  have "kernel_only s (s\<lparr>files := (files s)(filp := (files s filp)\<lparr>f_op := dummy\<rparr>)\<rparr>)"
    by (simp add: kernel_only_def same_inputs_def)
  then show ?case
    using Cons.IH by (auto intro: kernel_only_trans)
qed

lemma kernel_only_d_drop: "kernel_only s (d_drop child s)"
  by (simp add: kernel_only_def same_inputs_def d_drop_def)

lemma kernel_only_prepend_children:
  "kernel_only s (snd (prepend_children cs dt s))"
proof (induction cs arbitrary: dt s)
  case Nil
  show ?case by (simp add: kernel_only_refl)
next
  case (Cons child rest)
  let ?s2 = "(d_drop child s)\<lparr>dentries :=
               (dentries (d_drop child s))
                 (child := (dentries (d_drop child s) child)\<lparr>d_fsdata := dt\<rparr>)\<rparr>"
  have "kernel_only s ?s2"
    by (simp add: kernel_only_def same_inputs_def d_drop_def)
  moreover have "kernel_only ?s2 (snd (prepend_children rest (Some child) ?s2))"
    by (rule Cons.IH)
  ultimately show ?case
    by (simp add: Let_def) (rule kernel_only_trans)
qed

lemma kernel_only_process_dentry: "kernel_only s (snd (process_dentry active s))"
proof -
  let ?s1 = "s\<lparr>dentries := (dentries s)(active := (dentries s active)\<lparr>d_op := None\<rparr>),
               trace := trace s @ [Visit active]\<rparr>"
  have "kernel_only s ?s1"
    by (simp add: kernel_only_def same_inputs_def)
  moreover have "kernel_only ?s1
      (snd (prepend_children (d_subdirs (dentries ?s1 active)) (d_fsdata (dentries ?s1 active)) ?s1))"
    by (rule kernel_only_prepend_children)
  ultimately show ?thesis
    unfolding process_dentry_def Let_def by (rule kernel_only_trans)
qed

lemma kill_dentries_None: "kill_dentries None s = Some s"
  by (simp add: kill_dentries.simps)

lemma kill_dentries_Some:
  "process_dentry active s = (dt1, s1) \<Longrightarrow> kill_dentries (Some active) s = kill_dentries dt1 s1"
  by (subst kill_dentries.simps) simp

lemma kill_dentries_induct [consumes 1, case_names None Some]:
  assumes "kill_dentries dt s = Some s'"
    and "\<And>s. P None s s"
    and "\<And>active s dt1 s1 s'.
           process_dentry active s = (dt1, s1) \<Longrightarrow> kill_dentries dt1 s1 = Some s' \<Longrightarrow>
           P dt1 s1 s' \<Longrightarrow> P (Some active) s s'"
  shows "P dt s s'"
proof -
  have "kill_dentries dt s = Some s' \<longrightarrow> P dt s s'"
  proof (rule kill_dentries.raw_induct
           [where P = "\<lambda>dt s s'. kill_dentries dt s = Some s' \<longrightarrow> P dt s s'", OF _ assms(1)],
         goal_cases)
    case (1 kd dt s s')
    show ?case
    proof (cases dt)
      case None
      with 1(2) assms(2) show ?thesis by simp
    next
      case (Some active)
      obtain dt1 s1 where p: "process_dentry active s = (dt1, s1)"
        by (cases "process_dentry active s")
      from Some 1(2) p have k: "kd dt1 s1 = Some s'" by simp
      show ?thesis
      proof
        assume "kill_dentries dt s = Some s'"
        with Some p have r: "kill_dentries dt1 s1 = Some s'"
          by (simp add: kill_dentries_Some)
        with 1(1) [OF k] have "P dt1 s1 s'" by simp
        with p r Some show "P dt s s'" by (simp add: assms(3))
      qed
    qed
  qed
  with assms(1) show ?thesis by simp
qed

lemma kernel_only_kill_dentries:
  "kill_dentries dt s = Some s' \<Longrightarrow> kernel_only s s'"
proof (induction rule: kill_dentries_induct)
  case (None s)
  show ?case by (rule kernel_only_refl)
next
  case (Some active s dt1 s1 s')
  have "kernel_only s s1"
    using kernel_only_process_dentry [of s active] Some(1) by simp
  with Some(3) show ?case by (blast intro: kernel_only_trans)
qed

lemma kernel_only_kill_super:
  assumes "proclikefs_kill_super v sb dummy s = Some (Inr s')"
  shows "kernel_only s s'"
proof -
  let ?s1 = "if KERNEL_VERSION 2 4 0 \<le> v then kill_files dummy (s_files (sbs s sb)) s else s"
  let ?s2 = "?s1\<lparr>sbs := (sbs ?s1)(sb := (sbs ?s1 sb)\<lparr>s_op := SOP_proclikefs_null\<rparr>)\<rparr>"
  let ?dt = "s_root (sbs ?s2 sb)"
  let ?s3 = "case ?dt of None \<Rightarrow> ?s2
             | Some r \<Rightarrow> ?s2\<lparr>dentries := (dentries ?s2)(r := (dentries ?s2 r)\<lparr>d_fsdata := None\<rparr>)\<rparr>"
  have a: "kernel_only s ?s1"
    by (simp add: kernel_only_refl kernel_only_kill_files)
  have b: "kernel_only ?s1 ?s2"
    by (simp add: kernel_only_def same_inputs_def)
  have c: "kernel_only ?s2 ?s3"
    by (simp add: kernel_only_def same_inputs_def split: option.splits)
  from assms obtain s4 where k: "kill_dentries ?dt ?s3 = Some s4"
    unfolding proclikefs_kill_super_def Let_def by (auto split: option.splits)
  then have d: "kernel_only ?s3 s4"
    by (rule kernel_only_kill_dentries)
  from assms k have "kernel_only s4 s'"
    unfolding proclikefs_kill_super_def Let_def
    by (auto simp: kernel_only_def same_inputs_def split: option.splits)
  with a b c d show ?thesis
    by (blast intro: kernel_only_trans)
qed

lemma kernel_only_kill_fs_supers:
  "kill_fs_supers v dummy sl s = Some (Inr s') \<Longrightarrow> kernel_only s s'"
proof (induction sl arbitrary: s)
  case Nil
  then show ?case by (simp add: kernel_only_refl)
next
  case (Cons sb rest)
  then obtain s1 where k: "proclikefs_kill_super v sb dummy s = Some (Inr s1)"
      and r: "kill_fs_supers v dummy rest s1 = Some (Inr s')"
    by (auto split: option.splits sum.splits)
  show ?case
    using kernel_only_kill_super [OF k] Cons.IH [OF r] by (rule kernel_only_trans)
qed

lemma kernel_only_kill_super_blocks:
  "kill_super_blocks v pfs dummy sl s = Some (Inr s') \<Longrightarrow> kernel_only s s'"
proof (induction sl arbitrary: s)
  case Nil
  then show ?case by (simp add: kernel_only_refl)
next
  case (Cons sb rest)
  show ?case
  proof (cases "s_type (sbs s sb) \<noteq> pfs")
    case True
    with Cons show ?thesis by simp
  next
    case False
    with Cons.prems obtain s1 where k: "proclikefs_kill_super v sb dummy s = Some (Inr s1)"
        and r: "kill_super_blocks v pfs dummy rest s1 = Some (Inr s')"
      by (auto split: option.splits sum.splits)
    show ?thesis
      using kernel_only_kill_super [OF k] Cons.IH [OF r] by (rule kernel_only_trans)
  qed
qed

lemma kernel_only_clear_inuse_filps: "kernel_only s (clear_inuse_filps pfs dummy fl s)"
proof (induction fl arbitrary: s)
  case Nil
  show ?case by (simp add: kernel_only_refl)
next
  case (Cons filp rest)
  let ?s1 = "case f_dentry (files s filp) of
          None \<Rightarrow> s
        | Some dentry \<Rightarrow>
            (case d_inode (dentries s dentry) of
               None \<Rightarrow> s
             | Some inode \<Rightarrow>
                 (case i_sb (inodes s inode) of
                    None \<Rightarrow> s
                  | Some sb \<Rightarrow>
                      if s_type (sbs s sb) \<noteq> pfs then s
                      else s\<lparr>files := (files s)(filp := (files s filp)\<lparr>f_op := dummy\<rparr>)\<rparr>))"
  have "kernel_only s ?s1"
    by (simp add: kernel_only_def same_inputs_def split: option.splits)
  moreover have "kernel_only ?s1 (clear_inuse_filps pfs dummy rest ?s1)"
    by (rule Cons.IH)
  ultimately show ?case
    by simp (rule kernel_only_trans)
qed

subsection \<open>Clearing the tables\<close>

lemma clear_file_operations_slot:
  "fo_slot_exists v sl \<Longrightarrow> clear_file_operations v fo sl = fn_return_EIO"
  by (cases sl) (simp_all add: clear_file_operations_def Let_def)

lemma clear_inode_operations_slot:
  "io_slot_exists v sl \<Longrightarrow>
   clear_inode_operations v io sl =
     (if sl = IO_follow_link
      then (if KERNEL_VERSION 2 6 16 \<le> v then fn_NULL else fn_bad_follow_link)
      else fn_return_EIO)"
  by (cases sl) (simp_all add: clear_inode_operations_def Let_def)

lemma clear_file_operations_idem:
  "clear_file_operations v (clear_file_operations v fo) = clear_file_operations v fo"
proof
  fix sl
  show "clear_file_operations v (clear_file_operations v fo) sl = clear_file_operations v fo sl"
    by (cases sl) (simp_all add: clear_file_operations_def Let_def)
qed

lemma clear_inode_operations_idem:
  "clear_inode_operations v (clear_inode_operations v io) = clear_inode_operations v io"
proof
  fix sl
  show "clear_inode_operations v (clear_inode_operations v io) sl = clear_inode_operations v io sl"
    by (cases sl) (simp_all add: clear_inode_operations_def Let_def)
qed

lemma clear_pfo_frame:
  "fs_list (clear_pfo v ts s) = fs_list s \<and> pfs_heap (clear_pfo v ts s) = pfs_heap s \<and>
   pio_heap (clear_pfo v ts s) = pio_heap s \<and> heap_next (clear_pfo v ts s) = heap_next s \<and>
   use_count (clear_pfo v ts s) = use_count s \<and> super_blocks (clear_pfo v ts s) = super_blocks s \<and>
   inuse_filps (clear_pfo v ts s) = inuse_filps s \<and> sbs (clear_pfo v ts s) = sbs s \<and>
   dentries (clear_pfo v ts s) = dentries s \<and> inodes (clear_pfo v ts s) = inodes s \<and>
   files (clear_pfo v ts s) = files s \<and>
   proclikefs_null_super_operations (clear_pfo v ts s) = proclikefs_null_super_operations s \<and>
   proclikefs_null_root_inode_operations (clear_pfo v ts s) =
     proclikefs_null_root_inode_operations s \<and>
   trace (clear_pfo v ts s) = trace s"
  by (induction ts arbitrary: s) simp_all

lemma clear_pio_frame:
  "fs_list (clear_pio v ts s) = fs_list s \<and> pfs_heap (clear_pio v ts s) = pfs_heap s \<and>
   pfo_heap (clear_pio v ts s) = pfo_heap s \<and> heap_next (clear_pio v ts s) = heap_next s \<and>
   use_count (clear_pio v ts s) = use_count s \<and> super_blocks (clear_pio v ts s) = super_blocks s \<and>
   inuse_filps (clear_pio v ts s) = inuse_filps s \<and> sbs (clear_pio v ts s) = sbs s \<and>
   dentries (clear_pio v ts s) = dentries s \<and> inodes (clear_pio v ts s) = inodes s \<and>
   files (clear_pio v ts s) = files s \<and>
   proclikefs_null_super_operations (clear_pio v ts s) = proclikefs_null_super_operations s \<and>
   proclikefs_null_root_inode_operations (clear_pio v ts s) =
     proclikefs_null_root_inode_operations s \<and>
   trace (clear_pio v ts s) = trace s"
  by (induction ts arbitrary: s) simp_all

lemma pfo_heap_clear_pfo:
  "pfo_heap (clear_pfo v ts s) t =
     (if t \<in> set ts then clear_file_operations v (pfo_heap s t) else pfo_heap s t)"
  by (induction ts arbitrary: s) (auto simp: clear_file_operations_idem)

lemma pio_heap_clear_pio:
  "pio_heap (clear_pio v ts s) t =
     (if t \<in> set ts then clear_inode_operations v (pio_heap s t) else pio_heap s t)"
  by (induction ts arbitrary: s) (auto simp: clear_inode_operations_idem)

subsection \<open>The result of proclikefs_unregister_filesystem\<close>

lemma unregister_result:
  assumes "proclikefs_unregister_filesystem v (Some pfs) s = Some (Inr s')"
    and "pfs_heap s pfs = Some f"
  shows "\<exists>s4. kernel_only (clear_pio v (pfs_pio f) (clear_pfo v (pfs_pfo f) s)) s4 \<and>
           s' = MOD_DEC_USE_COUNT (s4\<lparr>pfs_heap := (pfs_heap s4)(pfs \<mapsto> retire v f)\<rparr>)"
proof -
  let ?s2 = "clear_pio v (pfs_pio f) (clear_pfo v (pfs_pfo f) s)"
  let ?dummy = "case pfs_pfo f of [] \<Rightarrow> None | pfo # _ \<Rightarrow> Some pfo"
  let ?s3 = "if KERNEL_VERSION 2 4 0 \<le> v then ?s2
             else clear_inuse_filps pfs ?dummy (inuse_filps ?s2) ?s2"
  let ?r = "if KERNEL_VERSION 2 4 10 \<le> v
            then kill_fs_supers v ?dummy (fs_supers (fs f)) ?s3
            else kill_super_blocks v pfs ?dummy (super_blocks ?s3) ?s3"
  from assms obtain s4 where r: "?r = Some (Inr s4)"
    unfolding proclikefs_unregister_filesystem_def Let_def
    by (auto split: option.splits sum.splits)
  have a: "kernel_only ?s2 ?s3"
    by (simp add: kernel_only_refl kernel_only_clear_inuse_filps)
  have b: "kernel_only ?s3 s4"
    using r kernel_only_kill_fs_supers kernel_only_kill_super_blocks
    by (auto split: if_splits)
  from a b have c: "kernel_only ?s2 s4"
    by (rule kernel_only_trans)
  then have "pfs_heap s4 pfs = Some f"
    using assms(2) by (simp add: kernel_only_def clear_pfo_frame clear_pio_frame)
  with assms r have "s' = MOD_DEC_USE_COUNT (s4\<lparr>pfs_heap := (pfs_heap s4)(pfs \<mapsto> retire v f)\<rparr>)"
    unfolding proclikefs_unregister_filesystem_def Let_def by simp
  with c show ?thesis by blast
qed

subsection \<open>The loop over the registry\<close>

lemma lookup_loop_found:
  assumes "p \<in> set ps" and "H p = Some f"
    and "\<forall>q\<in>set ps. H q \<noteq> None"
    and "\<forall>q\<in>set ps. \<forall>g. H q = Some g \<longrightarrow> name g = name f \<longrightarrow> q = p"
  shows "lookup_loop H (name f) ps acc = Inr (if 0 <s live f then Active else Stop (Some p))"
  using assms(1,3,4)
proof (induction ps arbitrary: acc)
  case Nil
  then show ?case by simp
next
  case (Cons q rest)
  show ?case
  proof (cases "q = p")
    case True
    then show ?thesis using assms(2) by simp
  next
    case False
    obtain g where g: "H q = Some g"
      using Cons.prems(2) by auto
    have ne: "name f \<noteq> name g"
      using Cons.prems(3) g False by auto
    have 1: "p \<in> set rest"
      using Cons.prems(1) False by simp
    have 2: "\<forall>q\<in>set rest. H q \<noteq> None"
      using Cons.prems(2) by simp
    have 3: "\<forall>q\<in>set rest. \<forall>g. H q = Some g \<longrightarrow> name g = name f \<longrightarrow> q = p"
      using Cons.prems(3) by simp
    show ?thesis
      using g ne Cons.IH [OF 1 2 3, of "Some q"] by simp
  qed
qed

lemma lookup_loop_registry:
  assumes "fs_list_valid s" and "unique_names s"
    and "p \<in> set (fs_list s)" and "pfs_heap s p = Some f"
  shows "lookup_loop (pfs_heap s) (name f) (fs_list s) acc =
           Inr (if 0 <s live f then Active else Stop (Some p))"
proof (rule lookup_loop_found [where H = "pfs_heap s" and ps = "fs_list s" and p = p and f = f])
  show "p \<in> set (fs_list s)" and "pfs_heap s p = Some f"
    using assms(3,4) by simp_all
  show "\<forall>q\<in>set (fs_list s). pfs_heap s q \<noteq> None"
    using assms(1) by (simp add: fs_list_valid_def)
  show "\<forall>q\<in>set (fs_list s). \<forall>g. pfs_heap s q = Some g \<longrightarrow> name g = name f \<longrightarrow> q = p"
    using assms(2,3,4) unfolding unique_names_def by blast
qed

lemma MOD_DEC_INC: "MOD_DEC_USE_COUNT (MOD_INC_USE_COUNT s) = s"
  by (simp add: MOD_DEC_USE_COUNT_def MOD_INC_USE_COUNT_def)

lemma lookup_loop_use_count:
  "lookup_loop (pfs_heap (MOD_INC_USE_COUNT s)) nm (fs_list (MOD_INC_USE_COUNT s)) acc =
   lookup_loop (pfs_heap s) nm (fs_list s) acc"
  by (simp add: MOD_INC_USE_COUNT_def)

lemma live_1: "0 <s (1 :: 32 word)"
  by (simp add: word_sless_alt)

lemma example_registry:
  "fs_list_valid registered_a \<and> unique_names registered_a \<and>
   fs_list_valid retired_a \<and> unique_names retired_a"
  by (simp add: fs_list_valid_def unique_names_def example_defs)

subsection \<open>Single steps\<close>

lemma set_callbacks_fields:
  "nsuper (set_callbacks v flags cb f) = nsuper f \<and> pfs_pfo (set_callbacks v flags cb f) = pfs_pfo f
   \<and> pfs_pio (set_callbacks v flags cb f) = pfs_pio f \<and> live (set_callbacks v flags cb f) = 1
   \<and> name (set_callbacks v flags cb f) = name f
   \<and> fs_supers (fs (set_callbacks v flags cb f)) = fs_supers (fs f)"
  by (simp add: set_callbacks_def Let_def)

lemma retire_fields:
  "nsuper (retire v f) = nsuper f \<and> pfs_pfo (retire v f) = pfs_pfo f
   \<and> pfs_pio (retire v f) = pfs_pio f \<and> live (retire v f) = 0 \<and> name (retire v f) = name f
   \<and> fs_supers (fs (retire v f)) = fs_supers (fs f)"
  by (simp add: retire_def)

lemma put_super_result:
  assumes "pfs_heap s (s_type (sbs s sb)) = Some f"
  shows "\<exists>s'. proclikefs_put_super sb s = Inr s' \<and>
     (if live f = 0 \<and> nsuper f - 1 = 0
      then fs_list s' = removeAll (s_type (sbs s sb)) (fs_list s)
         \<and> pfs_heap s' = (pfs_heap s)(s_type (sbs s sb) := None)
         \<and> trace s' = trace s @ [Unregister_filesystem (s_type (sbs s sb))]
              @ map (Kfree PFO) (pfs_pfo f) @ map (Kfree PIO) (pfs_pio f)
              @ [Kfree PFS (s_type (sbs s sb))]
      else fs_list s' = fs_list s \<and> trace s' = trace s
         \<and> pfs_heap s' = (pfs_heap s)(s_type (sbs s sb) \<mapsto> f\<lparr>nsuper := nsuper f - 1\<rparr>))"
  using assms
  by (simp add: proclikefs_put_super_def Let_def kfree_all_def MOD_DEC_USE_COUNT_def)

subsection \<open>The walk over a forest\<close>

lemma visits_simps [simp]:
  "visits [] = []" "visits (xs @ ys) = visits xs @ visits ys"
  "visits (Visit a # xs) = a # visits xs" "visits (D_drop a # xs) = visits xs"
  "visits (map D_drop cs) = []"
  by (simp_all add: visits_def)

lemma drops_simps [simp]:
  "drops [] = []" "drops (xs @ ys) = drops xs @ drops ys"
  "drops (Visit a # xs) = drops xs" "drops (D_drop a # xs) = a # drops xs"
  by (simp_all add: drops_def)

lemma drops_map_D_drop [simp]: "drops (map D_drop cs) = cs"
  by (induction cs) simp_all

lemma fnodes_simps [simp]:
  "fnodes [] = []" "fnodes (t # ts) = nodes t @ fnodes ts" "fnodes (ts @ us) = fnodes ts @ fnodes us"
  by (simp_all add: fnodes_def)

lemma nodes_fnodes: "nodes (DNode a ts) = a # fnodes ts"
  by (simp add: fnodes_def)









lemma visits_map_comp [simp]: "visits (map (D_drop \<circ> g) xs) = []"
  by (induction xs) simp_all

lemma drops_map_comp [simp]: "drops (map (D_drop \<circ> g) xs) = map g xs"
  by (induction xs) simp_all







subsection \<open>The bookkeeping of tables\<close>

lemma owned_upd:
  "owned (tbl(p := r)) =
     (case r of None \<Rightarrow> {} | Some ts \<Rightarrow> set ts) \<union>
     {t. \<exists>q ts. q \<noteq> p \<and> tbl q = Some ts \<and> t \<in> set ts}"
proof (rule set_eqI)
  fix t
  let ?R = "(case r of None \<Rightarrow> {} | Some ts \<Rightarrow> set ts) \<union>
            {t. \<exists>q ts. q \<noteq> p \<and> tbl q = Some ts \<and> t \<in> set ts}"
  show "t \<in> owned (tbl(p := r)) \<longleftrightarrow> t \<in> ?R"
  proof
    assume "t \<in> owned (tbl(p := r))"
    then obtain q ts where q: "(tbl(p := r)) q = Some ts" and t: "t \<in> set ts"
      unfolding owned_def by blast
    show "t \<in> ?R"
    proof (cases "q = p")
      case True
      with q have "r = Some ts" by simp
      with t show ?thesis by simp
    next
      case False
      with q have "tbl q = Some ts" by simp
      with False t show ?thesis by blast
    qed
  next
    assume a: "t \<in> ?R"
    show "t \<in> owned (tbl(p := r))"
    proof (cases "\<exists>q ts. q \<noteq> p \<and> tbl q = Some ts \<and> t \<in> set ts")
      case True
      then obtain q ts where "q \<noteq> p" "tbl q = Some ts" "t \<in> set ts" by blast
      then have "(tbl(p := r)) q = Some ts \<and> t \<in> set ts" by simp
      then show ?thesis unfolding owned_def by blast
    next
      case False
      with a obtain ts where "r = Some ts" "t \<in> set ts"
        by (cases r) auto
      then have "(tbl(p := r)) p = Some ts \<and> t \<in> set ts" by simp
      then show ?thesis unfolding owned_def by blast
    qed
  qed
qed

lemma owned_split:
  "owned tbl =
     (case tbl p of None \<Rightarrow> {} | Some ts \<Rightarrow> set ts) \<union>
     {t. \<exists>q ts. q \<noteq> p \<and> tbl q = Some ts \<and> t \<in> set ts}"
  using owned_upd [of tbl p "tbl p"] by simp

lemma owned_upd_empty: "tbl p = None \<Longrightarrow> owned (tbl(p \<mapsto> [])) = owned tbl"
  using owned_upd [of tbl p "Some []"] owned_split [of tbl p] by simp

lemma inv_view_new_fs:
  assumes "inv_view al fr n tbl reg"
  shows "inv_view al fr (Suc n) (tbl(n \<mapsto> [])) (insert n reg)"
proof -
  have "tbl n = None"
    using assms unfolding inv_view_def by force
  then have o: "owned (tbl(n \<mapsto> [])) = owned tbl"
    by (rule owned_upd_empty)
  show ?thesis
    using assms unfolding inv_view_def o
    by (auto simp: less_Suc_eq)
qed

lemma inv_view_new_table:
  assumes "inv_view al fr n tbl reg" and "tbl p = Some ts" and "set ts' = insert n (set ts)"
    and "distinct ts'"
  shows "inv_view (al @ [n]) fr (Suc n) (tbl(p \<mapsto> ts')) reg"
proof -
  have fresh: "n \<notin> set al" "n \<notin> set fr" "n \<notin> owned tbl"
    using assms(1) unfolding inv_view_def by auto
  have sub: "set ts \<subseteq> owned tbl"
    using assms(2) by (auto simp: owned_def)
  have o: "owned (tbl(p \<mapsto> ts')) = insert n (owned tbl)"
    using owned_upd [of tbl p "Some ts'"] owned_split [of tbl p] assms(2,3)
    by auto
  have disj: "\<forall>q us. q \<noteq> p \<and> tbl q = Some us \<longrightarrow> set ts' \<inter> set us = {}"
  proof (intro allI impI)
    fix q us
    assume q: "q \<noteq> p \<and> tbl q = Some us"
    then have "set ts \<inter> set us = {}"
      using assms(1,2) unfolding inv_view_def by blast
    moreover have "n \<notin> set us"
      using fresh(3) q by (auto simp: owned_def)
    ultimately show "set ts' \<inter> set us = {}"
      using assms(3) by auto
  qed
  have reg: "{q. (tbl(p \<mapsto> ts')) q \<noteq> None} = {q. tbl q \<noteq> None}"
    using assms(2) by auto
  show ?thesis
    unfolding inv_view_def o reg
    using assms(1,4) fresh disj unfolding inv_view_def
    by (auto simp: less_Suc_eq)
qed

lemma inv_view_reclaim:
  assumes "inv_view al fr n tbl reg" and "tbl p = Some ts"
  shows "inv_view al (fr @ ts) n (tbl(p := None)) (reg - {p})"
proof -
  have sub: "set ts \<subseteq> owned tbl"
    using assms(2) by (auto simp: owned_def)
  have other: "\<forall>q us. q \<noteq> p \<and> tbl q = Some us \<longrightarrow> set ts \<inter> set us = {}"
    using assms unfolding inv_view_def by blast
  have o1: "owned (tbl(p := None)) \<inter> set ts = {}"
    using other owned_upd [of tbl p None] by auto
  have o2: "owned tbl = owned (tbl(p := None)) \<union> set ts"
    using assms(2) owned_upd [of tbl p None] owned_split [of tbl p] by auto
  have d: "distinct ts"
    using assms unfolding inv_view_def by blast
  have f: "set fr \<inter> set ts = {}"
    using assms(1) sub unfolding inv_view_def by blast
  have reg: "{q. (tbl(p := None)) q \<noteq> None} = {q. tbl q \<noteq> None} - {p}"
    by auto
  have a: "set al = set fr \<union> owned tbl" "set fr \<inter> owned tbl = {}"
    using assms(1) unfolding inv_view_def by blast+
  show ?thesis
    unfolding inv_view_def reg
  proof (intro conjI)
    show "set (fr @ ts) \<inter> owned (tbl(p := None)) = {}"
      using a(2) o1 o2 by auto
    show "set al = set (fr @ ts) \<union> owned (tbl(p := None))"
      using a(1) o2 by auto
    show "distinct (fr @ ts)"
      using assms(1) d f unfolding inv_view_def by simp
  qed (use assms(1) in \<open>auto simp: inv_view_def split: if_splits\<close>)
qed

lemma allocated_tables_simps [simp]:
  "allocated_tables [] = []"
  "allocated_tables (xs @ ys) = allocated_tables xs @ allocated_tables ys"
  "allocated_tables (e # xs) = alloc_of e @ allocated_tables xs"
  by (simp_all add: allocated_tables_def)

lemma freed_tables_simps [simp]:
  "freed_tables [] = []"
  "freed_tables (xs @ ys) = freed_tables xs @ freed_tables ys"
  "freed_tables (e # xs) = free_of e @ freed_tables xs"
  by (simp_all add: freed_tables_def)

lemma tables_of_walk_events:
  "\<forall>e\<in>set evs. walk_event e \<Longrightarrow> allocated_tables evs = [] \<and> freed_tables evs = []"
proof (induction evs)
  case Nil
  show ?case by simp
next
  case (Cons e evs)
  then show ?case by (cases e) simp_all
qed

lemma tables_of_kfree [simp]:
  "freed_tables (map (Kfree PFO) xs) = xs" "freed_tables (map (Kfree PIO) xs) = xs"
  "allocated_tables (map (Kfree k) xs) = []"
  by (induction xs) simp_all

lemma same_view_inv: "same_view s s' \<Longrightarrow> tables_inv s \<Longrightarrow> tables_inv s'"
  by (simp add: same_view_def tables_inv_def)

lemma table_lists_upd:
  "table_lists (s\<lparr>pfs_heap := (pfs_heap s)(p \<mapsto> f)\<rparr>) = (table_lists s)(p \<mapsto> pfs_pfo f @ pfs_pio f)"
  by (rule ext) (simp add: table_lists_def)

lemma table_lists_counts [simp]:
  "table_lists (MOD_INC_USE_COUNT s) = table_lists s"
  "table_lists (MOD_DEC_USE_COUNT s) = table_lists s"
  "table_lists (printk m s) = table_lists s"
  by (rule ext, simp add: table_lists_def MOD_INC_USE_COUNT_def MOD_DEC_USE_COUNT_def printk_def)+

lemma table_lists_same:
  assumes "pfs_heap s p = Some f" and "pfs_pfo g = pfs_pfo f" and "pfs_pio g = pfs_pio f"
  shows "(table_lists s)(p \<mapsto> pfs_pfo g @ pfs_pio g) = table_lists s"
  using assms by (auto simp: table_lists_def)

lemma register_view:
  assumes "proclikefs_register_filesystem v try_ok km_ok err nm flags cb s = Inr (h, s')"
  shows "same_view s s' \<or>
         (allocated_tables (trace s') = allocated_tables (trace s) \<and>
          freed_tables (trace s') = freed_tables (trace s) \<and> heap_next s' = Suc (heap_next s) \<and>
          table_lists s' = (table_lists s)(heap_next s \<mapsto> []) \<and>
          set (fs_list s') = insert (heap_next s) (set (fs_list s)))"
proof (cases nm)
  case None
  with assms show ?thesis
    by (simp add: proclikefs_register_filesystem_def same_view_def)
next
  case (Some n)
  show ?thesis
  proof (cases "KERNEL_VERSION 2 6 0 \<le> v \<and> \<not> try_ok")
    case True
    with assms Some show ?thesis
      by (auto simp: proclikefs_register_filesystem_def same_view_def printk_def table_lists_def)
  next
    case False
    let ?s1 = "MOD_INC_USE_COUNT s"
    have v1: "trace ?s1 = trace s" "heap_next ?s1 = heap_next s" "pfs_heap ?s1 = pfs_heap s"
      "fs_list ?s1 = fs_list s"
      by (simp_all add: MOD_INC_USE_COUNT_def)
    from assms Some False obtain r where l: "lookup_loop (pfs_heap ?s1) n (fs_list ?s1) None = Inr r"
      by (auto simp: proclikefs_register_filesystem_def Let_def split: sum.splits)
    show ?thesis
    proof (cases r)
      case Active
      with assms Some False l have "s' = s"
        by (simp add: proclikefs_register_filesystem_def Let_def MOD_DEC_INC)
      then show ?thesis by (simp add: same_view_def)
    next
      case (Stop newfs)
      show ?thesis
      proof (cases newfs)
        case (Some p)
        with assms \<open>nm = Some n\<close> False l Stop obtain f where f: "pfs_heap s p = Some f"
          and s': "s' = ?s1\<lparr>pfs_heap := (pfs_heap ?s1)(p \<mapsto> set_callbacks v flags cb f)\<rparr>"
          by (auto simp: proclikefs_register_filesystem_def Let_def v1 split: option.splits)
        have "table_lists s' = table_lists s"
          unfolding s' table_lists_upd
          using table_lists_same [of ?s1 p f "set_callbacks v flags cb f"] f
          by (simp add: set_callbacks_fields v1)
        then show ?thesis
          by (simp add: same_view_def s' v1)
      next
        case None
        show ?thesis
        proof (cases km_ok)
          case False
          with assms \<open>nm = Some n\<close> \<open>\<not> (KERNEL_VERSION 2 6 0 \<le> v \<and> \<not> try_ok)\<close> l Stop None
          have "s' = s"
            by (simp add: proclikefs_register_filesystem_def Let_def kmalloc_def MOD_DEC_INC)
          then show ?thesis by (simp add: same_view_def)
        next
          case True
          let ?p = "heap_next s"
          from assms \<open>nm = Some n\<close> \<open>\<not> (KERNEL_VERSION 2 6 0 \<le> v \<and> \<not> try_ok)\<close> l Stop None True
          have f: "heap_next s' = Suc ?p" "fs_list s' = ?p # fs_list s"
            "pfs_heap s' = (pfs_heap s)(?p \<mapsto> set_callbacks v flags cb (new_file_system v n))"
            "allocated_tables (trace s') = allocated_tables (trace s)"
            "freed_tables (trace s') = freed_tables (trace s)"
            by (auto simp: proclikefs_register_filesystem_def Let_def kmalloc_def
                MOD_INC_USE_COUNT_def printk_def split: if_splits)
          have "table_lists s' = (table_lists s)(?p \<mapsto> [])"
            by (rule ext)
               (simp add: table_lists_def f set_callbacks_fields new_file_system_def)
          with f have "allocated_tables (trace s') = allocated_tables (trace s) \<and>
            freed_tables (trace s') = freed_tables (trace s) \<and> heap_next s' = Suc ?p \<and>
            table_lists s' = (table_lists s)(?p \<mapsto> []) \<and>
            set (fs_list s') = insert ?p (set (fs_list s))"
            by simp
          then show ?thesis by blast
        qed
      qed
    qed
  qed
qed

lemma unregister_view:
  assumes "proclikefs_unregister_filesystem v h s = Some (Inr s')"
  shows "same_view s s'"
proof (cases h)
  case None
  with assms show ?thesis
    by (simp add: proclikefs_unregister_filesystem_def same_view_def)
next
  case (Some p)
  with assms obtain f where f: "pfs_heap s p = Some f"
    by (auto simp: proclikefs_unregister_filesystem_def split: option.splits)
  let ?s2 = "clear_pio v (pfs_pio f) (clear_pfo v (pfs_pfo f) s)"
  from assms Some obtain s4 where k: "kernel_only ?s2 s4"
      and s': "s' = MOD_DEC_USE_COUNT (s4\<lparr>pfs_heap := (pfs_heap s4)(p \<mapsto> retire v f)\<rparr>)"
    using unregister_result [OF _ f] by blast
  have c: "fs_list ?s2 = fs_list s" "pfs_heap ?s2 = pfs_heap s" "heap_next ?s2 = heap_next s"
    "trace ?s2 = trace s"
    by (simp_all add: clear_pfo_frame clear_pio_frame)
  from k obtain evs where evs: "\<forall>e\<in>set evs. walk_event e" "trace s4 = trace s @ evs"
    unfolding kernel_only_def c by blast
  have k4: "fs_list s4 = fs_list s" "pfs_heap s4 = pfs_heap s" "heap_next s4 = heap_next s"
    using k unfolding kernel_only_def c by simp_all
  have "table_lists s' = table_lists s"
    unfolding s' by (rule ext) (simp add: table_lists_def k4 f retire_fields MOD_DEC_USE_COUNT_def)
  then show ?thesis
    using tables_of_walk_events [OF evs(1)] evs(2) k4
    by (simp add: same_view_def s' MOD_DEC_USE_COUNT_def)
qed

lemma new_file_operations_view:
  assumes "proclikefs_new_file_operations km_ok h s = Inr (r, s')"
  shows "same_view s s' \<or>
         (\<exists>p ts. table_lists s p = Some ts \<and>
            allocated_tables (trace s') = allocated_tables (trace s) @ [heap_next s] \<and>
            freed_tables (trace s') = freed_tables (trace s) \<and> heap_next s' = Suc (heap_next s) \<and>
            table_lists s' = (table_lists s)(p \<mapsto> heap_next s # ts) \<and>
            set (fs_list s') = set (fs_list s))"
proof (cases km_ok)
  case False
  with assms have "s' = s"
    by (simp add: proclikefs_new_file_operations_def kmalloc_def)
  then show ?thesis by (simp add: same_view_def)
next
  case True
  with assms obtain p f where f: "pfs_heap s p = Some f"
    and g: "heap_next s' = Suc (heap_next s)" "fs_list s' = fs_list s"
      "trace s' = trace s @ [Kmalloc PFO (heap_next s)]"
      "pfs_heap s' = (pfs_heap s)(p \<mapsto> f\<lparr>pfs_pfo := heap_next s # pfs_pfo f\<rparr>)"
    by (auto simp: proclikefs_new_file_operations_def kmalloc_def split: option.splits)
  have "table_lists s' = (table_lists s)(p \<mapsto> heap_next s # (pfs_pfo f @ pfs_pio f))"
    by (rule ext) (simp add: table_lists_def g f)
  moreover have "table_lists s p = Some (pfs_pfo f @ pfs_pio f)"
    by (simp add: table_lists_def f)
  ultimately show ?thesis
    using g by auto
qed

lemma new_inode_operations_view:
  assumes "proclikefs_new_inode_operations km_ok h s = Inr (r, s')"
  shows "same_view s s' \<or>
         (\<exists>p ts ts'. table_lists s p = Some ts \<and> mset ts' = add_mset (heap_next s) (mset ts) \<and>
            allocated_tables (trace s') = allocated_tables (trace s) @ [heap_next s] \<and>
            freed_tables (trace s') = freed_tables (trace s) \<and> heap_next s' = Suc (heap_next s) \<and>
            table_lists s' = (table_lists s)(p \<mapsto> ts') \<and>
            set (fs_list s') = set (fs_list s))"
proof (cases km_ok)
  case False
  with assms have "s' = s"
    by (simp add: proclikefs_new_inode_operations_def kmalloc_def)
  then show ?thesis by (simp add: same_view_def)
next
  case True
  with assms obtain p f where f: "pfs_heap s p = Some f"
    and g: "heap_next s' = Suc (heap_next s)" "fs_list s' = fs_list s"
      "trace s' = trace s @ [Kmalloc PIO (heap_next s)]"
      "pfs_heap s' = (pfs_heap s)(p \<mapsto> f\<lparr>pfs_pio := heap_next s # pfs_pio f\<rparr>)"
    by (auto simp: proclikefs_new_inode_operations_def kmalloc_def split: option.splits)
  have "table_lists s' = (table_lists s)(p \<mapsto> pfs_pfo f @ heap_next s # pfs_pio f)"
    by (rule ext) (simp add: table_lists_def g f)
  moreover have "table_lists s p = Some (pfs_pfo f @ pfs_pio f)"
    by (simp add: table_lists_def f)
  moreover have "mset (pfs_pfo f @ heap_next s # pfs_pio f)
                   = add_mset (heap_next s) (mset (pfs_pfo f @ pfs_pio f))"
    by simp
  moreover have "allocated_tables (trace s') = allocated_tables (trace s) @ [heap_next s]"
    "freed_tables (trace s') = freed_tables (trace s)" "set (fs_list s') = set (fs_list s)"
    by (simp_all add: g)
  ultimately show ?thesis
    using g(1) by blast
qed

lemma read_super_view:
  assumes "proclikefs_read_super v try_ok sb s = Inr s'"
  shows "same_view s s'"
proof -
  let ?p = "s_type (sbs s sb)"
  from assms obtain f where f: "pfs_heap s ?p = Some f"
    by (auto simp: proclikefs_read_super_def Let_def split: option.splits)
  with assms have g: "heap_next s' = heap_next s" "fs_list s' = fs_list s"
    "pfs_heap s' = (pfs_heap s)(?p \<mapsto> f\<lparr>nsuper := nsuper f + 1\<rparr>)"
    "allocated_tables (trace s') = allocated_tables (trace s)"
    "freed_tables (trace s') = freed_tables (trace s)"
    by (auto simp: proclikefs_read_super_def Let_def printk_def MOD_INC_USE_COUNT_def
        split: if_splits)
  have "table_lists s' = table_lists s"
    by (rule ext) (simp add: table_lists_def g f)
  with g show ?thesis by (simp add: same_view_def)
qed

lemma put_super_view:
  assumes "proclikefs_put_super sb s = Inr s'"
  shows "same_view s s' \<or>
         (\<exists>p ts. table_lists s p = Some ts \<and>
            allocated_tables (trace s') = allocated_tables (trace s) \<and>
            freed_tables (trace s') = freed_tables (trace s) @ ts \<and> heap_next s' = heap_next s \<and>
            table_lists s' = (table_lists s)(p := None) \<and>
            set (fs_list s') = set (fs_list s) - {p})"
proof -
  let ?p = "s_type (sbs s sb)"
  from assms obtain f where f: "pfs_heap s ?p = Some f"
    by (auto simp: proclikefs_put_super_def Let_def split: option.splits)
  have h: "heap_next s' = heap_next s"
    using assms f
    by (auto simp: proclikefs_put_super_def Let_def kfree_all_def MOD_DEC_USE_COUNT_def
        split: if_splits)
  from put_super_result [OF f] assms
  have r: "if live f = 0 \<and> nsuper f - 1 = 0
      then fs_list s' = removeAll ?p (fs_list s)
         \<and> pfs_heap s' = (pfs_heap s)(?p := None)
         \<and> trace s' = trace s @ [Unregister_filesystem ?p]
              @ map (Kfree PFO) (pfs_pfo f) @ map (Kfree PIO) (pfs_pio f) @ [Kfree PFS ?p]
      else fs_list s' = fs_list s \<and> trace s' = trace s
         \<and> pfs_heap s' = (pfs_heap s)(?p \<mapsto> f\<lparr>nsuper := nsuper f - 1\<rparr>)"
    by auto
  show ?thesis
  proof (cases "live f = 0 \<and> nsuper f - 1 = 0")
    case True
    with r have g: "fs_list s' = removeAll ?p (fs_list s)"
      "pfs_heap s' = (pfs_heap s)(?p := None)"
      "trace s' = trace s @ [Unregister_filesystem ?p]
              @ map (Kfree PFO) (pfs_pfo f) @ map (Kfree PIO) (pfs_pio f) @ [Kfree PFS ?p]"
      by simp_all
    have "table_lists s' = (table_lists s)(?p := None)"
      by (rule ext) (simp add: table_lists_def g)
    moreover have "table_lists s ?p = Some (pfs_pfo f @ pfs_pio f)"
      by (simp add: table_lists_def f)
    moreover have "freed_tables (trace s') = freed_tables (trace s) @ pfs_pfo f @ pfs_pio f"
      "allocated_tables (trace s') = allocated_tables (trace s)"
      by (simp_all add: g)
    moreover have "set (fs_list s') = set (fs_list s) - {?p}"
      by (simp add: g)
    ultimately show ?thesis
      using h by blast
  next
    case False
    with r have g: "fs_list s' = fs_list s" "trace s' = trace s"
      "pfs_heap s' = (pfs_heap s)(?p \<mapsto> f\<lparr>nsuper := nsuper f - 1\<rparr>)"
      by simp_all
    have "table_lists s' = table_lists s"
      by (rule ext) (simp add: table_lists_def g f)
    with g h show ?thesis by (simp add: same_view_def)
  qed
qed

lemma inv_view_new_table_mset:
  assumes "inv_view al fr n tbl reg" and "tbl p = Some ts"
    and "mset ts' = add_mset n (mset ts)"
  shows "inv_view (al @ [n]) fr (Suc n) (tbl(p \<mapsto> ts')) reg"
proof -
  have m: "mset ts' = mset (n # ts)"
    using assms(3) by simp
  have "set ts \<subseteq> owned tbl"
    using assms(2) by (auto simp: owned_def)
  moreover have "n \<notin> owned tbl"
    using assms(1) unfolding inv_view_def by auto
  ultimately have "n \<notin> set ts" by blast
  moreover have "distinct ts"
    using assms(1,2) unfolding inv_view_def by blast
  ultimately have "distinct ts'"
    using mset_eq_imp_distinct_iff [OF m] by simp
  moreover have "set ts' = insert n (set ts)"
    using mset_eq_setD [OF m] by simp
  ultimately show ?thesis
    using assms(1,2) by (intro inv_view_new_table)
qed

lemma tables_inv_step:
  assumes "tables_inv s" and "call_step v c s = Some (Inr s')"
  shows "tables_inv s'"
proof -
  have iv: "inv_view (allocated_tables (trace s)) (freed_tables (trace s)) (heap_next s)
              (table_lists s) (set (fs_list s))"
    using assms(1) by (simp add: tables_inv_def)
  show ?thesis
  proof (cases c)
  case (Register try_ok km_ok err nm flags cb)
  with assms(2) obtain h
    where "proclikefs_register_filesystem v try_ok km_ok err nm flags cb s = Inr (h, s')"
    by (cases "proclikefs_register_filesystem v try_ok km_ok err nm flags cb s") auto
  from register_view [OF this] show ?thesis
  proof
    assume "same_view s s'"
    then show ?thesis using assms(1) by (rule same_view_inv)
  next
    assume "allocated_tables (trace s') = allocated_tables (trace s) \<and>
          freed_tables (trace s') = freed_tables (trace s) \<and> heap_next s' = Suc (heap_next s) \<and>
          table_lists s' = (table_lists s)(heap_next s \<mapsto> []) \<and>
          set (fs_list s') = insert (heap_next s) (set (fs_list s))"
    then show ?thesis
      using inv_view_new_fs [OF iv] unfolding tables_inv_def by simp
  qed
next
  case (Unregister h)
  with assms(2) have "same_view s s'"
    using unregister_view by simp
  then show ?thesis using assms(1) by (rule same_view_inv)
next
  case (New_file_operations km_ok h)
  with assms(2) obtain r
    where "proclikefs_new_file_operations km_ok h s = Inr (r, s')"
    by (cases "proclikefs_new_file_operations km_ok h s") auto
  from new_file_operations_view [OF this] show ?thesis
  proof (elim disjE exE conjE)
    assume "same_view s s'"
    then show ?thesis using assms(1) by (rule same_view_inv)
  next
    fix p ts
    assume a: "table_lists s p = Some ts"
      "allocated_tables (trace s') = allocated_tables (trace s) @ [heap_next s]"
      "freed_tables (trace s') = freed_tables (trace s)" "heap_next s' = Suc (heap_next s)"
      "table_lists s' = (table_lists s)(p \<mapsto> heap_next s # ts)"
      "set (fs_list s') = set (fs_list s)"
    have "mset (heap_next s # ts) = add_mset (heap_next s) (mset ts)" by simp
    from inv_view_new_table_mset [OF iv a(1) this] show ?thesis
      unfolding tables_inv_def a by simp
  qed
next
  case (New_inode_operations km_ok h)
  with assms(2) obtain r
    where "proclikefs_new_inode_operations km_ok h s = Inr (r, s')"
    by (cases "proclikefs_new_inode_operations km_ok h s") auto
  from new_inode_operations_view [OF this] show ?thesis
  proof (elim disjE exE conjE)
    assume "same_view s s'"
    then show ?thesis using assms(1) by (rule same_view_inv)
  next
    fix p ts ts'
    assume a: "table_lists s p = Some ts" "mset ts' = add_mset (heap_next s) (mset ts)"
      "allocated_tables (trace s') = allocated_tables (trace s) @ [heap_next s]"
      "freed_tables (trace s') = freed_tables (trace s)" "heap_next s' = Suc (heap_next s)"
      "table_lists s' = (table_lists s)(p \<mapsto> ts')"
      "set (fs_list s') = set (fs_list s)"
    from inv_view_new_table_mset [OF iv a(1) a(2)] show ?thesis
      unfolding tables_inv_def a(3-7) by simp
  qed
next
  case (Read_super try_ok sb)
  with assms(2) have "same_view s s'"
    using read_super_view by simp
  then show ?thesis using assms(1) by (rule same_view_inv)
next
  case (Put_super sb)
  with assms(2) have "proclikefs_put_super sb s = Inr s'" by simp
  from put_super_view [OF this] show ?thesis
  proof (elim disjE exE conjE)
    assume "same_view s s'"
    then show ?thesis using assms(1) by (rule same_view_inv)
  next
    fix p ts
    assume a: "table_lists s p = Some ts"
      "allocated_tables (trace s') = allocated_tables (trace s)"
      "freed_tables (trace s') = freed_tables (trace s) @ ts" "heap_next s' = heap_next s"
      "table_lists s' = (table_lists s)(p := None)"
      "set (fs_list s') = set (fs_list s) - {p}"
    from inv_view_reclaim [OF iv a(1)] show ?thesis
      unfolding tables_inv_def a by simp
  qed
  qed
qed

lemma tables_inv_run:
  "tables_inv s \<Longrightarrow> run v cs s = Some (Inr s') \<Longrightarrow> tables_inv s'"
proof (induction cs arbitrary: s)
  case Nil
  then show ?case by simp
next
  case (Cons c cs)
  from Cons.prems(2) obtain s1 where 1: "call_step v c s = Some (Inr s1)"
    and 2: "run v cs s1 = Some (Inr s')"
    by (auto split: option.splits sum.splits)
  show ?case
    using Cons.IH [OF tables_inv_step [OF Cons.prems(1) 1] 2] .
qed

lemma run_append:
  "run v (cs @ ds) s =
     (case run v cs s of None \<Rightarrow> None | Some (Inl e) \<Rightarrow> Some (Inl e)
      | Some (Inr s') \<Rightarrow> run v ds s')"
  by (induction cs arbitrary: s) (auto split: option.splits sum.splits)

lemma tables_inv_boot: "tables_inv boot"
  by (simp add: tables_inv_def inv_view_def owned_def table_lists_def example_defs)

lemma run_reclaim_a: "run v26 calls_reclaim_a boot = Some (Inr reclaimed_a)"
proof -
  have "proclikefs_put_super 5 retired_a = Inr reclaimed_a"
    by (simp add: reclaimed_a_def example_defs op_defs)
  then show ?thesis
    using run_retire_a by (simp add: calls_reclaim_a_def run_append)
qed

subsection \<open>The second run follows the first\<close>

lemma either_simps [simp]: "either x x z" "either x y x"
  by (simp_all add: either_def)

lemma prepend_children_follows:
  assumes "follows S s t" and "linked W dt s t" and "prepend_children cs dt s = (dt', s')"
  shows "\<exists>t'. prepend_children cs dt t = (dt', t') \<and> follows S s' t'
              \<and> linked (W \<union> set cs) dt' s' t'"
  using assms
proof (induction cs arbitrary: dt s t W)
  case Nil
  then show ?case by simp
next
  case (Cons c cs)
  let ?s2 = "(d_drop c s)\<lparr>dentries :=
               (dentries (d_drop c s))(c := (dentries (d_drop c s) c)\<lparr>d_fsdata := dt\<rparr>)\<rparr>"
  let ?t2 = "(d_drop c t)\<lparr>dentries :=
               (dentries (d_drop c t))(c := (dentries (d_drop c t) c)\<lparr>d_fsdata := dt\<rparr>)\<rparr>"
  have p: "prepend_children cs (Some c) ?s2 = (dt', s')"
    using Cons.prems(3) by (simp add: Let_def)
  have f2: "follows S ?s2 ?t2"
    using Cons.prems(1)
    by (simp add: follows_def same_inputs_def settled_def d_drop_def)
  have l2: "linked (insert c W) (Some c) ?s2 ?t2"
    using Cons.prems(2)
    by (auto simp: linked_def d_drop_def)
  from Cons.IH [OF f2 l2 p] obtain t'
    where "prepend_children cs (Some c) ?t2 = (dt', t')" "follows S s' t'"
      "linked (insert c W \<union> set cs) dt' s' t'"
    by blast
  then show ?case
    by (simp add: Let_def)
qed

lemma process_dentry_follows:
  assumes "follows S s t" and "linked W (Some a) s t" and "process_dentry a s = (dt1, s1)"
  shows "\<exists>t1 W1. process_dentry a t = (dt1, t1) \<and> follows S s1 t1 \<and> linked W1 dt1 s1 t1"
proof -
  let ?s0 = "s\<lparr>dentries := (dentries s)(a := (dentries s a)\<lparr>d_op := None\<rparr>),
               trace := trace s @ [Visit a]\<rparr>"
  let ?t0 = "t\<lparr>dentries := (dentries t)(a := (dentries t a)\<lparr>d_op := None\<rparr>),
               trace := trace t @ [Visit a]\<rparr>"
  have aW: "a \<in> W"
    using assms(2) by (simp add: linked_def)
  have sub: "d_subdirs (dentries t a) = d_subdirs (dentries s a)"
    using assms(1) by (simp add: follows_def same_inputs_def)
  have fsd: "d_fsdata (dentries t a) = d_fsdata (dentries s a)"
    using assms(2) aW by (simp add: linked_def)
  have p: "prepend_children (d_subdirs (dentries s a)) (d_fsdata (dentries s a)) ?s0 = (dt1, s1)"
    using assms(3) by (simp add: process_dentry_def Let_def)
  have f0: "follows S ?s0 ?t0"
    using assms(1) by (simp add: follows_def same_inputs_def settled_def)
  have l0: "linked W (d_fsdata (dentries s a)) ?s0 ?t0"
    using assms(2) aW by (auto simp: linked_def)
  from prepend_children_follows [OF f0 l0 p] obtain t1
    where "prepend_children (d_subdirs (dentries s a)) (d_fsdata (dentries s a)) ?t0 = (dt1, t1)"
      "follows S s1 t1" "linked (W \<union> set (d_subdirs (dentries s a))) dt1 s1 t1"
    by blast
  then show ?thesis
    using sub fsd by (auto simp: process_dentry_def Let_def)
qed

lemma kill_dentries_follows:
  assumes "kill_dentries dt s = Some s'"
  shows "\<forall>t W. follows S s t \<and> linked W dt s t \<longrightarrow>
           (\<exists>t'. kill_dentries dt t = Some t' \<and> follows S s' t')"
  using assms
proof (induction rule: kill_dentries_induct)
  case (None s)
  show ?case by (simp add: kill_dentries_None)
next
  case (Some a s dt1 s1 s')
  show ?case
  proof (intro allI impI)
    fix t W
    assume h: "follows S s t \<and> linked W (Some a) s t"
    then obtain t1 W1 where p: "process_dentry a t = (dt1, t1)"
        and f: "follows S s1 t1" and l: "linked W1 dt1 s1 t1"
      using process_dentry_follows [of S s t W a dt1 s1] Some(1) by blast
    from Some(3) f l obtain t' where "kill_dentries dt1 t1 = Some t'" "follows S s' t'"
      by blast
    then show "\<exists>t'. kill_dentries (Some a) t = Some t' \<and> follows S s' t'"
      using kill_dentries_Some [OF p] by simp
  qed
qed

lemma kill_files_follows:
  "follows S s t \<Longrightarrow> follows S (kill_files dummy fl s) (kill_files dummy fl t)"
proof (induction fl arbitrary: s t)
  case Nil
  then show ?case by simp
next
  case (Cons filp rest)
  have "follows S (s\<lparr>files := (files s)(filp := (files s filp)\<lparr>f_op := dummy\<rparr>)\<rparr>)
                  (t\<lparr>files := (files t)(filp := (files t filp)\<lparr>f_op := dummy\<rparr>)\<rparr>)"
    using Cons.prems by (simp add: follows_def same_inputs_def settled_def)
  then show ?case
    using Cons.IH by simp
qed

lemma kill_super_follows:
  assumes "follows S s t" and "proclikefs_kill_super v sb dummy s = Some (Inr s')"
  shows "\<exists>t'. proclikefs_kill_super v sb dummy t = Some (Inr t') \<and> follows S s' t'"
proof -
  define s1 where "s1 = (if KERNEL_VERSION 2 4 0 \<le> v then kill_files dummy (s_files (sbs s sb)) s else s)"
  define t1 where "t1 = (if KERNEL_VERSION 2 4 0 \<le> v then kill_files dummy (s_files (sbs t sb)) t else t)"
  define s2 where "s2 = s1\<lparr>sbs := (sbs s1)(sb := (sbs s1 sb)\<lparr>s_op := SOP_proclikefs_null\<rparr>)\<rparr>"
  define t2 where "t2 = t1\<lparr>sbs := (sbs t1)(sb := (sbs t1 sb)\<lparr>s_op := SOP_proclikefs_null\<rparr>)\<rparr>"
  define dt where "dt = s_root (sbs s2 sb)"
  define s3 where "s3 = (case dt of None \<Rightarrow> s2
             | Some r \<Rightarrow> s2\<lparr>dentries := (dentries s2)(r := (dentries s2 r)\<lparr>d_fsdata := None\<rparr>)\<rparr>)"
  define t3 where "t3 = (case dt of None \<Rightarrow> t2
             | Some r \<Rightarrow> t2\<lparr>dentries := (dentries t2)(r := (dentries t2 r)\<lparr>d_fsdata := None\<rparr>)\<rparr>)"
  have sf: "s_files (sbs t sb) = s_files (sbs s sb)"
    using assms(1) by (simp add: follows_def same_inputs_def)
  have f1: "follows S s1 t1"
    using assms(1) by (simp add: s1_def t1_def sf kill_files_follows)
  then have f2: "follows S s2 t2"
    by (simp add: s2_def t2_def follows_def same_inputs_def settled_def)
  then have dtt: "s_root (sbs t2 sb) = dt"
    by (simp add: dt_def follows_def same_inputs_def)
  have f3: "follows S s3 t3"
    using f2 by (cases dt) (simp_all add: s3_def t3_def follows_def same_inputs_def settled_def)
  have l3: "linked (case dt of None \<Rightarrow> {} | Some r \<Rightarrow> {r}) dt s3 t3"
    by (cases dt) (simp_all add: s3_def t3_def linked_def)
  have unf: "\<And>u u1 u2 u3. u1 = (if KERNEL_VERSION 2 4 0 \<le> v then kill_files dummy (s_files (sbs u sb)) u else u)
      \<Longrightarrow> u2 = u1\<lparr>sbs := (sbs u1)(sb := (sbs u1 sb)\<lparr>s_op := SOP_proclikefs_null\<rparr>)\<rparr>
      \<Longrightarrow> u3 = (case s_root (sbs u2 sb) of None \<Rightarrow> u2
             | Some r \<Rightarrow> u2\<lparr>dentries := (dentries u2)(r := (dentries u2 r)\<lparr>d_fsdata := None\<rparr>)\<rparr>)
      \<Longrightarrow> proclikefs_kill_super v sb dummy u =
          (case kill_dentries (s_root (sbs u2 sb)) u3 of
           None \<Rightarrow> None
         | Some s4 \<Rightarrow>
             Some (case s_root (sbs s4 sb) of
                     None \<Rightarrow> Inl Null_deref
                   | Some r \<Rightarrow>
                       (case d_inode (dentries s4 r) of
                          None \<Rightarrow> Inl Null_deref
                        | Some i \<Rightarrow>
                            Inr (s4\<lparr>inodes := (inodes s4)
                                      (i := (inodes s4 i)\<lparr>i_op := IOP_proclikefs_null_root\<rparr>)\<rparr>))))"
    by (simp only: proclikefs_kill_super_def Let_def)
  have us: "proclikefs_kill_super v sb dummy s =
          (case kill_dentries dt s3 of
           None \<Rightarrow> None
         | Some s4 \<Rightarrow>
             Some (case s_root (sbs s4 sb) of
                     None \<Rightarrow> Inl Null_deref
                   | Some r \<Rightarrow>
                       (case d_inode (dentries s4 r) of
                          None \<Rightarrow> Inl Null_deref
                        | Some i \<Rightarrow>
                            Inr (s4\<lparr>inodes := (inodes s4)
                                      (i := (inodes s4 i)\<lparr>i_op := IOP_proclikefs_null_root\<rparr>)\<rparr>))))"
    using unf [OF s1_def s2_def] s3_def unfolding dt_def by simp
  have ut: "proclikefs_kill_super v sb dummy t =
          (case kill_dentries dt t3 of
           None \<Rightarrow> None
         | Some s4 \<Rightarrow>
             Some (case s_root (sbs s4 sb) of
                     None \<Rightarrow> Inl Null_deref
                   | Some r \<Rightarrow>
                       (case d_inode (dentries s4 r) of
                          None \<Rightarrow> Inl Null_deref
                        | Some i \<Rightarrow>
                            Inr (s4\<lparr>inodes := (inodes s4)
                                      (i := (inodes s4 i)\<lparr>i_op := IOP_proclikefs_null_root\<rparr>)\<rparr>))))"
    using unf [OF t1_def t2_def] t3_def unfolding dtt by simp
  from assms(2) obtain s4 where k: "kill_dentries dt s3 = Some s4"
    unfolding us by (auto split: option.splits)
  from kill_dentries_follows [OF k, of S] f3 l3 obtain t4
    where kt: "kill_dentries dt t3 = Some t4" and f4: "follows S s4 t4"
    by blast
  from assms(2) k obtain r i where r: "s_root (sbs s4 sb) = Some r"
      and i: "d_inode (dentries s4 r) = Some i"
      and s': "s' = s4\<lparr>inodes := (inodes s4)(i := (inodes s4 i)\<lparr>i_op := IOP_proclikefs_null_root\<rparr>)\<rparr>"
    unfolding us by (auto split: option.splits)
  let ?t' = "t4\<lparr>inodes := (inodes t4)(i := (inodes t4 i)\<lparr>i_op := IOP_proclikefs_null_root\<rparr>)\<rparr>"
  have rt: "s_root (sbs t4 sb) = Some r" "d_inode (dentries t4 r) = Some i"
    using f4 r i by (simp_all add: follows_def same_inputs_def)
  have "proclikefs_kill_super v sb dummy t = Some (Inr ?t')"
    unfolding ut using kt rt by simp
  moreover have "follows S s' ?t'"
    unfolding s' using f4 by (simp add: follows_def same_inputs_def settled_def)
  ultimately show ?thesis by blast
qed

lemma kill_fs_supers_follows:
  "follows S s t \<Longrightarrow> kill_fs_supers v dummy sl s = Some (Inr s') \<Longrightarrow>
   \<exists>t'. kill_fs_supers v dummy sl t = Some (Inr t') \<and> follows S s' t'"
proof (induction sl arbitrary: s t)
  case Nil
  then show ?case by simp
next
  case (Cons sb rest)
  from Cons.prems(2) obtain s1 where k: "proclikefs_kill_super v sb dummy s = Some (Inr s1)"
      and r: "kill_fs_supers v dummy rest s1 = Some (Inr s')"
    by (auto split: option.splits sum.splits)
  from kill_super_follows [OF Cons.prems(1) k] obtain t1
    where kt: "proclikefs_kill_super v sb dummy t = Some (Inr t1)" and f: "follows S s1 t1"
    by blast
  from Cons.IH [OF f r] kt show ?case by simp
qed

lemma kill_super_blocks_follows:
  "follows S s t \<Longrightarrow> kill_super_blocks v pfs dummy sl s = Some (Inr s') \<Longrightarrow>
   \<exists>t'. kill_super_blocks v pfs dummy sl t = Some (Inr t') \<and> follows S s' t'"
proof (induction sl arbitrary: s t)
  case Nil
  then show ?case by simp
next
  case (Cons sb rest)
  have ty: "s_type (sbs t sb) = s_type (sbs s sb)"
    using Cons.prems(1) by (simp add: follows_def same_inputs_def)
  show ?case
  proof (cases "s_type (sbs s sb) \<noteq> pfs")
    case True
    with Cons ty show ?thesis by simp
  next
    case False
    with Cons.prems(2) obtain s1 where k: "proclikefs_kill_super v sb dummy s = Some (Inr s1)"
        and r: "kill_super_blocks v pfs dummy rest s1 = Some (Inr s')"
      by (auto split: option.splits sum.splits)
    from kill_super_follows [OF Cons.prems(1) k] obtain t1
      where kt: "proclikefs_kill_super v sb dummy t = Some (Inr t1)" and f: "follows S s1 t1"
      by blast
    from Cons.IH [OF f r] kt False ty show ?thesis by simp
  qed
qed

lemma clear_inuse_filps_follows:
  "follows S s t \<Longrightarrow>
   follows S (clear_inuse_filps pfs dummy fl s) (clear_inuse_filps pfs dummy fl t)"
proof (induction fl arbitrary: s t)
  case Nil
  then show ?case by simp
next
  case (Cons filp rest)
  let ?step = "\<lambda>s. case f_dentry (files s filp) of
          None \<Rightarrow> s
        | Some dentry \<Rightarrow>
            (case d_inode (dentries s dentry) of
               None \<Rightarrow> s
             | Some inode \<Rightarrow>
                 (case i_sb (inodes s inode) of
                    None \<Rightarrow> s
                  | Some sb \<Rightarrow>
                      if s_type (sbs s sb) \<noteq> pfs then s
                      else s\<lparr>files := (files s)(filp := (files s filp)\<lparr>f_op := dummy\<rparr>)\<rparr>))"
  have i: "f_dentry (files t filp) = f_dentry (files s filp)"
    "\<And>a. d_inode (dentries t a) = d_inode (dentries s a)"
    "\<And>a. i_sb (inodes t a) = i_sb (inodes s a)"
    "\<And>a. s_type (sbs t a) = s_type (sbs s a)"
    using Cons.prems by (simp_all add: follows_def same_inputs_def)
  have "follows S (s\<lparr>files := (files s)(filp := (files s filp)\<lparr>f_op := dummy\<rparr>)\<rparr>)
                  (t\<lparr>files := (files t)(filp := (files t filp)\<lparr>f_op := dummy\<rparr>)\<rparr>)"
    using Cons.prems by (simp add: follows_def same_inputs_def settled_def)
  then have "follows S (?step s) (?step t)"
    using Cons.prems by (simp add: i split: option.splits)
  from Cons.IH [OF this] show ?case by simp
qed

lemma follows_end:
  assumes "follows S S t"
  shows "dentries t = dentries S" and "sbs t = sbs S" and "inodes t = inodes S"
    and "files t = files S"
proof -
  have e: "\<And>x y z :: 'a. either x y y = (x = y)"
    by (simp add: either_def)
  show "dentries t = dentries S"
  proof
    fix a
    show "dentries t a = dentries S a"
      using assms by (cases "dentries t a"; cases "dentries S a")
        (simp add: follows_def same_inputs_def settled_def e, metis dentry.select_convs)
  qed
  show "sbs t = sbs S"
  proof
    fix a
    show "sbs t a = sbs S a"
      using assms by (cases "sbs t a"; cases "sbs S a")
        (simp add: follows_def same_inputs_def settled_def e, metis super_block.select_convs)
  qed
  show "inodes t = inodes S"
  proof
    fix a
    show "inodes t a = inodes S a"
      using assms by (cases "inodes t a"; cases "inodes S a")
        (simp add: follows_def same_inputs_def settled_def e, metis inode.select_convs)
  qed
  show "files t = files S"
  proof
    fix a
    show "files t a = files S a"
      using assms by (cases "files t a"; cases "files S a")
        (simp add: follows_def same_inputs_def settled_def e, metis file_struct.select_convs)
  qed
qed

lemma follows_start:
  assumes "dentries t = dentries S" and "sbs t = sbs S" and "inodes t = inodes S"
    and "files t = files S" and "same_inputs s S"
  shows "follows S s t"
  using assms by (simp add: follows_def same_inputs_def settled_def)

lemma retire_idem: "retire v (retire v f) = retire v f"
  by (simp add: retire_def)

lemma unregister_Some:
  assumes "pfs_heap s p = Some f"
    and "dummy = (case pfs_pfo f of [] \<Rightarrow> None | pfo # _ \<Rightarrow> Some pfo)"
    and "s2 = clear_pio v (pfs_pio f) (clear_pfo v (pfs_pfo f) s)"
    and "s3 = (if KERNEL_VERSION 2 4 0 \<le> v then s2
               else clear_inuse_filps p dummy (inuse_filps s2) s2)"
  shows "proclikefs_unregister_filesystem v (Some p) s =
     (case (if KERNEL_VERSION 2 4 10 \<le> v
            then kill_fs_supers v dummy (fs_supers (fs f)) s3
            else kill_super_blocks v p dummy (super_blocks s3) s3) of
        None \<Rightarrow> None
      | Some (Inl e) \<Rightarrow> Some (Inl e)
      | Some (Inr s4) \<Rightarrow>
          (case pfs_heap s4 p of
             None \<Rightarrow> Some (Inl Use_after_free)
           | Some f4 \<Rightarrow>
               Some (Inr (MOD_DEC_USE_COUNT
                       (s4\<lparr>pfs_heap := (pfs_heap s4)(p \<mapsto> retire v f4)\<rparr>)))))"
  using assms
  by (simp only: proclikefs_unregister_filesystem_def Let_def option.case)

lemma kill_loop_kernel_only:
  assumes "(if KERNEL_VERSION 2 4 10 \<le> v
            then kill_fs_supers v dummy sl s
            else kill_super_blocks v p dummy bl s) = Some (Inr s')"
  shows "kernel_only s s'"
  using assms kernel_only_kill_fs_supers kernel_only_kill_super_blocks
  by (auto split: if_splits)

lemma kill_loop_follows:
  assumes "follows S s t"
    and "(if KERNEL_VERSION 2 4 10 \<le> v
          then kill_fs_supers v dummy sl s
          else kill_super_blocks v p dummy bl s) = Some (Inr s')"
  shows "\<exists>t'. (if KERNEL_VERSION 2 4 10 \<le> v
               then kill_fs_supers v dummy sl t
               else kill_super_blocks v p dummy bl t) = Some (Inr t') \<and> follows S s' t'"
  using assms kill_fs_supers_follows kill_super_blocks_follows
  by (auto split: if_splits)

lemma unregister_twice_aux:
  assumes "proclikefs_unregister_filesystem v (Some p) s = Some (Inr s1)"
  shows "\<exists>s2. proclikefs_unregister_filesystem v (Some p) s1 = Some (Inr s2)
           \<and> pfo_heap s2 = pfo_heap s1 \<and> pio_heap s2 = pio_heap s1
           \<and> dentries s2 = dentries s1 \<and> sbs s2 = sbs s1 \<and> inodes s2 = inodes s1
           \<and> files s2 = files s1
           \<and> pfs_heap s2 = pfs_heap s1 \<and> fs_list s2 = fs_list s1
           \<and> map_option live (pfs_heap s2 p) = Some 0
           \<and> use_count s2 = use_count s1 - 1"
proof -
  from assms obtain f where f: "pfs_heap s p = Some f"
    by (auto simp: proclikefs_unregister_filesystem_def split: option.splits)
  define dummy where "dummy = (case pfs_pfo f of [] \<Rightarrow> None | pfo # _ \<Rightarrow> Some pfo)"
  define a2 where "a2 = clear_pio v (pfs_pio f) (clear_pfo v (pfs_pfo f) s)"
  define a3 where "a3 = (if KERNEL_VERSION 2 4 0 \<le> v then a2
                         else clear_inuse_filps p dummy (inuse_filps a2) a2)"
  note u1 = unregister_Some [OF f dummy_def a2_def a3_def]
  from assms obtain a4 where
    l1: "(if KERNEL_VERSION 2 4 10 \<le> v
          then kill_fs_supers v dummy (fs_supers (fs f)) a3
          else kill_super_blocks v p dummy (super_blocks a3) a3) = Some (Inr a4)"
    unfolding u1 by (auto split: option.splits sum.splits)
  have k23: "kernel_only a2 a3"
    by (simp add: a3_def kernel_only_refl kernel_only_clear_inuse_filps)
  have k34: "kernel_only a3 a4"
    using l1 by (rule kill_loop_kernel_only)
  have k24: "kernel_only a2 a4"
    using k23 k34 by (rule kernel_only_trans)
  have c2: "pfs_heap a2 = pfs_heap s" "fs_list a2 = fs_list s" "use_count a2 = use_count s"
    "inuse_filps a2 = inuse_filps s" "super_blocks a2 = super_blocks s"
    by (simp_all add: a2_def clear_pfo_frame clear_pio_frame)
  have f4: "pfs_heap a4 p = Some f"
    using k24 f c2 by (simp add: kernel_only_def)
  have s1: "s1 = MOD_DEC_USE_COUNT (a4\<lparr>pfs_heap := (pfs_heap a4)(p \<mapsto> retire v f)\<rparr>)"
    using assms l1 f4 unfolding u1 by simp
  \<comment> \<open>the second run\<close>
  let ?f' = "retire v f"
  have f': "pfs_heap s1 p = Some ?f'"
    by (simp add: s1 MOD_DEC_USE_COUNT_def)
  have dummy': "dummy = (case pfs_pfo ?f' of [] \<Rightarrow> None | pfo # _ \<Rightarrow> Some pfo)"
    by (simp add: dummy_def retire_fields)
  define b2 where "b2 = clear_pio v (pfs_pio ?f') (clear_pfo v (pfs_pfo ?f') s1)"
  define b3 where "b3 = (if KERNEL_VERSION 2 4 0 \<le> v then b2
                         else clear_inuse_filps p dummy (inuse_filps b2) b2)"
  note u2 = unregister_Some [OF f' dummy' b2_def b3_def]
  have k1: "dentries s1 = dentries a4" "sbs s1 = sbs a4" "inodes s1 = inodes a4"
    "files s1 = files a4" "inuse_filps s1 = inuse_filps a4" "super_blocks s1 = super_blocks a4"
    "pfo_heap s1 = pfo_heap a4" "pio_heap s1 = pio_heap a4" "fs_list s1 = fs_list a4"
    by (simp_all add: s1 MOD_DEC_USE_COUNT_def)
  have d2: "dentries b2 = dentries s1" "sbs b2 = sbs s1" "inodes b2 = inodes s1"
    "files b2 = files s1" "inuse_filps b2 = inuse_filps s1" "super_blocks b2 = super_blocks s1"
    "pfs_heap b2 = pfs_heap s1" "fs_list b2 = fs_list s1" "use_count b2 = use_count s1"
    by (simp_all add: b2_def clear_pfo_frame clear_pio_frame)
  have in24: "same_inputs a2 a4"
    using k24 by (simp add: kernel_only_def)
  have fo2: "follows a4 a2 b2"
    using in24 by (intro follows_start) (simp_all add: d2 k1)
  have lists: "inuse_filps b2 = inuse_filps a2" "super_blocks b3 = super_blocks a3"
  proof -
    show "inuse_filps b2 = inuse_filps a2"
      using k24 by (simp add: d2 k1 kernel_only_def)
    have "kernel_only b2 b3"
      by (simp add: b3_def kernel_only_refl kernel_only_clear_inuse_filps)
    then have "super_blocks b3 = super_blocks b2"
      by (simp add: kernel_only_def)
    also have "\<dots> = super_blocks a4" by (simp add: d2 k1)
    also have "\<dots> = super_blocks a3" using k34 by (simp add: kernel_only_def)
    finally show "super_blocks b3 = super_blocks a3" .
  qed
  have fo3: "follows a4 a3 b3"
    using fo2 by (simp add: a3_def b3_def lists clear_inuse_filps_follows)
  from kill_loop_follows [OF fo3 l1] obtain b4 where
    l2: "(if KERNEL_VERSION 2 4 10 \<le> v
          then kill_fs_supers v dummy (fs_supers (fs f)) b3
          else kill_super_blocks v p dummy (super_blocks a3) b3) = Some (Inr b4)"
    and fo4: "follows a4 a4 b4"
    by blast
  have l2': "(if KERNEL_VERSION 2 4 10 \<le> v
          then kill_fs_supers v dummy (fs_supers (fs ?f')) b3
          else kill_super_blocks v p dummy (super_blocks b3) b3) = Some (Inr b4)"
    using l2 by (auto simp: retire_fields lists split: if_splits)
  have kb: "kernel_only b2 b4"
  proof -
    have "kernel_only b2 b3"
      by (simp add: b3_def kernel_only_refl kernel_only_clear_inuse_filps)
    moreover have "kernel_only b3 b4"
      using l2 by (rule kill_loop_kernel_only)
    ultimately show ?thesis by (rule kernel_only_trans)
  qed
  have g4: "pfs_heap b4 = pfs_heap s1" "fs_list b4 = fs_list s1" "use_count b4 = use_count s1"
    "pfo_heap b4 = pfo_heap b2" "pio_heap b4 = pio_heap b2"
    using kb by (simp_all add: kernel_only_def d2)
  let ?s2 = "MOD_DEC_USE_COUNT (b4\<lparr>pfs_heap := (pfs_heap b4)(p \<mapsto> retire v ?f')\<rparr>)"
  have r2: "proclikefs_unregister_filesystem v (Some p) s1 = Some (Inr ?s2)"
    unfolding u2 using l2' g4 f' by simp
  have e: "dentries b4 = dentries a4" "sbs b4 = sbs a4" "inodes b4 = inodes a4"
    "files b4 = files a4"
    using follows_end [OF fo4] by simp_all
  have pf: "pfo_heap b2 = pfo_heap s1"
  proof
    fix x
    have "pfo_heap s1 = pfo_heap a2"
      using k24 by (simp add: k1 kernel_only_def)
    then have "pfo_heap s1 x = (if x \<in> set (pfs_pfo f) then clear_file_operations v (pfo_heap s x)
                                else pfo_heap s x)"
      by (simp add: a2_def clear_pio_frame pfo_heap_clear_pfo)
    then show "pfo_heap b2 x = pfo_heap s1 x"
      by (simp add: b2_def clear_pio_frame pfo_heap_clear_pfo retire_fields
          clear_file_operations_idem)
  qed
  have pi: "pio_heap b2 = pio_heap s1"
  proof
    fix x
    have "pio_heap s1 = pio_heap a2"
      using k24 by (simp add: k1 kernel_only_def)
    then have "pio_heap s1 x = (if x \<in> set (pfs_pio f) then clear_inode_operations v (pio_heap s x)
                                else pio_heap s x)"
      by (simp add: a2_def clear_pfo_frame pio_heap_clear_pio)
    then show "pio_heap b2 x = pio_heap s1 x"
      by (simp add: b2_def clear_pfo_frame pio_heap_clear_pio retire_fields
          clear_inode_operations_idem)
  qed
  have ph: "(pfs_heap s1)(p \<mapsto> retire v ?f') = pfs_heap s1"
    using f' by (auto simp: retire_idem)
  have "pfo_heap ?s2 = pfo_heap s1 \<and> pio_heap ?s2 = pio_heap s1
           \<and> dentries ?s2 = dentries s1 \<and> sbs ?s2 = sbs s1 \<and> inodes ?s2 = inodes s1
           \<and> files ?s2 = files s1
           \<and> pfs_heap ?s2 = pfs_heap s1 \<and> fs_list ?s2 = fs_list s1
           \<and> map_option live (pfs_heap ?s2 p) = Some 0
           \<and> use_count ?s2 = use_count s1 - 1"
    by (simp add: MOD_DEC_USE_COUNT_def g4 e k1 pf pi ph f' retire_fields)
  with r2 show ?thesis by blast
qed

subsection \<open>The registry stays keyed by name\<close>

lemma lookup_loop_Stop_None:
  "lookup_loop H nm ps acc = Inr (Stop None) \<Longrightarrow> ps = [] \<and> acc = None"
  by (induction ps arbitrary: acc) (auto split: option.splits if_splits)

lemma registry_by_names:
  "fs_list_valid s = (\<forall>p\<in>set (fs_list s). names_of s p \<noteq> None)"
  "unique_names s =
     (\<forall>p\<in>set (fs_list s). \<forall>q\<in>set (fs_list s). \<forall>n.
        names_of s p = Some n \<and> names_of s q = Some n \<longrightarrow> p = q)"
  unfolding fs_list_valid_def unique_names_def names_of_def
  by auto

lemma registry_same:
  assumes "fs_list s' = fs_list s" and "names_of s' = names_of s"
    and "fs_list_valid s \<and> unique_names s"
  shows "fs_list_valid s' \<and> unique_names s'"
  using assms by (simp add: registry_by_names)

lemma registry_remove:
  assumes "fs_list s' = removeAll p (fs_list s)" and "names_of s' = (names_of s)(p := None)"
    and "fs_list_valid s \<and> unique_names s"
  shows "fs_list_valid s' \<and> unique_names s'"
  using assms by (simp add: registry_by_names)

lemma names_of_upd:
  "names_of (s\<lparr>pfs_heap := (pfs_heap s)(p \<mapsto> g)\<rparr>) = (names_of s)(p \<mapsto> name g)"
  by (rule ext) (simp add: names_of_def)

lemma names_of_same:
  "pfs_heap s p = Some f \<Longrightarrow> name g = name f \<Longrightarrow> (names_of s)(p \<mapsto> name g) = names_of s"
  by (auto simp: names_of_def)

lemma register_registry:
  assumes "proclikefs_register_filesystem v try_ok km_ok err nm flags cb s = Inr (h, s')"
    and "fs_list_valid s \<and> unique_names s"
  shows "fs_list_valid s' \<and> unique_names s'"
proof (cases nm)
  case None
  with assms show ?thesis
    by (simp add: proclikefs_register_filesystem_def)
next
  case (Some n)
  show ?thesis
  proof (cases "KERNEL_VERSION 2 6 0 \<le> v \<and> \<not> try_ok")
    case True
    with assms(1) Some have "s' = printk Msg_error_using_module s"
      by (simp add: proclikefs_register_filesystem_def)
    then have a: "fs_list s' = fs_list s" "names_of s' = names_of s"
      by (simp_all add: printk_def names_of_def fun_eq_iff)
    show ?thesis by (rule registry_same [OF a assms(2)])
  next
    case False
    let ?s1 = "MOD_INC_USE_COUNT s"
    have v1: "pfs_heap ?s1 = pfs_heap s" "fs_list ?s1 = fs_list s"
      by (simp_all add: MOD_INC_USE_COUNT_def)
    from assms(1) Some False obtain r
      where l: "lookup_loop (pfs_heap ?s1) n (fs_list ?s1) None = Inr r"
      by (auto simp: proclikefs_register_filesystem_def Let_def split: sum.splits)
    show ?thesis
    proof (cases r)
      case Active
      with assms(1) Some False l have "s' = s"
        by (simp add: proclikefs_register_filesystem_def Let_def MOD_DEC_INC)
      then show ?thesis using assms(2) by simp
    next
      case (Stop newfs)
      show ?thesis
      proof (cases newfs)
        case (Some p)
        with assms(1) \<open>nm = Some n\<close> False l Stop obtain f where f: "pfs_heap s p = Some f"
          and s': "s' = ?s1\<lparr>pfs_heap := (pfs_heap ?s1)(p \<mapsto> set_callbacks v flags cb f)\<rparr>"
          by (auto simp: proclikefs_register_filesystem_def Let_def v1 split: option.splits)
        have "names_of ?s1 = names_of s"
          by (rule ext) (simp add: names_of_def v1)
        then have b: "names_of s' = names_of s"
          unfolding s' names_of_upd
          using names_of_same [OF f, of "set_callbacks v flags cb f"]
          by (simp add: set_callbacks_fields)
        have a: "fs_list s' = fs_list s"
          by (simp add: s' v1)
        show ?thesis by (rule registry_same [OF a b assms(2)])
      next
        case None
        with l Stop have e: "fs_list s = []"
          using lookup_loop_Stop_None [of "pfs_heap ?s1" n "fs_list ?s1" None] by (simp add: v1)
        show ?thesis
        proof (cases km_ok)
          case False
          with assms(1) \<open>nm = Some n\<close> \<open>\<not> (KERNEL_VERSION 2 6 0 \<le> v \<and> \<not> try_ok)\<close> l Stop None
          have "s' = s"
            by (simp add: proclikefs_register_filesystem_def Let_def kmalloc_def MOD_DEC_INC)
          then show ?thesis using assms(2) by simp
        next
          case True
          from assms(1) \<open>nm = Some n\<close> \<open>\<not> (KERNEL_VERSION 2 6 0 \<le> v \<and> \<not> try_ok)\<close> l Stop None True
          have "fs_list s' = heap_next s # fs_list s"
            "pfs_heap s' = (pfs_heap s)(heap_next s \<mapsto> set_callbacks v flags cb (new_file_system v n))"
            by (auto simp: proclikefs_register_filesystem_def Let_def kmalloc_def
                MOD_INC_USE_COUNT_def printk_def split: if_splits)
          then show ?thesis
            by (simp add: fs_list_valid_def unique_names_def e)
        qed
      qed
    qed
  qed
qed

lemma registry_step:
  assumes "fs_list_valid s \<and> unique_names s" and "call_step v c s = Some (Inr s')"
  shows "fs_list_valid s' \<and> unique_names s'"
proof (cases c)
  case (Register try_ok km_ok err nm flags cb)
  with assms(2) obtain h
    where "proclikefs_register_filesystem v try_ok km_ok err nm flags cb s = Inr (h, s')"
    by (cases "proclikefs_register_filesystem v try_ok km_ok err nm flags cb s") auto
  then show ?thesis using assms(1) by (rule register_registry)
next
  case (Unregister h)
  show ?thesis
  proof (cases h)
    case None
    with Unregister assms show ?thesis
      by (simp add: proclikefs_unregister_filesystem_def)
  next
    case (Some p)
    with Unregister assms(2) obtain f where f: "pfs_heap s p = Some f"
      by (auto simp: proclikefs_unregister_filesystem_def split: option.splits)
    let ?s2 = "clear_pio v (pfs_pio f) (clear_pfo v (pfs_pfo f) s)"
    from Unregister Some assms(2)
    have u: "proclikefs_unregister_filesystem v (Some p) s = Some (Inr s')"
      by simp
    obtain s4 where k: "kernel_only ?s2 s4"
        and s': "s' = MOD_DEC_USE_COUNT (s4\<lparr>pfs_heap := (pfs_heap s4)(p \<mapsto> retire v f)\<rparr>)"
      using unregister_result [OF u f] by blast
    have k4: "fs_list s4 = fs_list s" "pfs_heap s4 = pfs_heap s"
      using k unfolding kernel_only_def by (simp_all add: clear_pfo_frame clear_pio_frame)
    have b: "names_of s' = names_of s"
      by (rule ext) (simp add: names_of_def s' MOD_DEC_USE_COUNT_def k4 f retire_fields)
    have a: "fs_list s' = fs_list s"
      by (simp add: s' MOD_DEC_USE_COUNT_def k4)
    show ?thesis by (rule registry_same [OF a b assms(1)])
  qed
next
  case (New_file_operations km_ok h)
  with assms(2) obtain r
    where n: "proclikefs_new_file_operations km_ok h s = Inr (r, s')"
    by (cases "proclikefs_new_file_operations km_ok h s") auto
  show ?thesis
  proof (cases km_ok)
    case False
    with n have "s' = s"
      by (simp add: proclikefs_new_file_operations_def kmalloc_def)
    then show ?thesis using assms(1) by simp
  next
    case True
    with n obtain p f where f: "pfs_heap s p = Some f"
      and g: "fs_list s' = fs_list s"
        "pfs_heap s' = (pfs_heap s)(p \<mapsto> f\<lparr>pfs_pfo := heap_next s # pfs_pfo f\<rparr>)"
      by (auto simp: proclikefs_new_file_operations_def kmalloc_def split: option.splits)
    have b: "names_of s' = names_of s"
      by (rule ext) (simp add: names_of_def g f)
    show ?thesis by (rule registry_same [OF g(1) b assms(1)])
  qed
next
  case (New_inode_operations km_ok h)
  with assms(2) obtain r
    where n: "proclikefs_new_inode_operations km_ok h s = Inr (r, s')"
    by (cases "proclikefs_new_inode_operations km_ok h s") auto
  show ?thesis
  proof (cases km_ok)
    case False
    with n have "s' = s"
      by (simp add: proclikefs_new_inode_operations_def kmalloc_def)
    then show ?thesis using assms(1) by simp
  next
    case True
    with n obtain p f where f: "pfs_heap s p = Some f"
      and g: "fs_list s' = fs_list s"
        "pfs_heap s' = (pfs_heap s)(p \<mapsto> f\<lparr>pfs_pio := heap_next s # pfs_pio f\<rparr>)"
      by (auto simp: proclikefs_new_inode_operations_def kmalloc_def split: option.splits)
    have b: "names_of s' = names_of s"
      by (rule ext) (simp add: names_of_def g f)
    show ?thesis by (rule registry_same [OF g(1) b assms(1)])
  qed
next
  case (Read_super try_ok sb)
  with assms(2) have n: "proclikefs_read_super v try_ok sb s = Inr s'" by simp
  let ?p = "s_type (sbs s sb)"
  from n obtain f where f: "pfs_heap s ?p = Some f"
    by (auto simp: proclikefs_read_super_def Let_def split: option.splits)
  with n have g: "fs_list s' = fs_list s"
    "pfs_heap s' = (pfs_heap s)(?p \<mapsto> f\<lparr>nsuper := nsuper f + 1\<rparr>)"
    by (auto simp: proclikefs_read_super_def Let_def printk_def MOD_INC_USE_COUNT_def
        split: if_splits)
  have b: "names_of s' = names_of s"
    by (rule ext) (simp add: names_of_def g f)
  show ?thesis by (rule registry_same [OF g(1) b assms(1)])
next
  case (Put_super sb)
  with assms(2) have n: "proclikefs_put_super sb s = Inr s'" by simp
  let ?p = "s_type (sbs s sb)"
  from n obtain f where f: "pfs_heap s ?p = Some f"
    by (auto simp: proclikefs_put_super_def Let_def split: option.splits)
  from put_super_result [OF f] n
  have r: "if live f = 0 \<and> nsuper f - 1 = 0
      then fs_list s' = removeAll ?p (fs_list s) \<and> pfs_heap s' = (pfs_heap s)(?p := None)
      else fs_list s' = fs_list s
         \<and> pfs_heap s' = (pfs_heap s)(?p \<mapsto> f\<lparr>nsuper := nsuper f - 1\<rparr>)"
    by (auto split: if_splits)
  show ?thesis
  proof (cases "live f = 0 \<and> nsuper f - 1 = 0")
    case True
    with r have g: "fs_list s' = removeAll ?p (fs_list s)" "pfs_heap s' = (pfs_heap s)(?p := None)"
      by simp_all
    have b: "names_of s' = (names_of s)(?p := None)"
      by (rule ext) (simp add: names_of_def g)
    show ?thesis by (rule registry_remove [OF g(1) b assms(1)])
  next
    case False
    with r have g: "fs_list s' = fs_list s"
      "pfs_heap s' = (pfs_heap s)(?p \<mapsto> f\<lparr>nsuper := nsuper f - 1\<rparr>)"
      by simp_all
    have b: "names_of s' = names_of s"
      by (rule ext) (simp add: names_of_def g f)
    show ?thesis by (rule registry_same [OF g(1) b assms(1)])
  qed
qed

lemma registry_run:
  "fs_list_valid s \<and> unique_names s \<Longrightarrow> run v cs s = Some (Inr s') \<Longrightarrow>
   fs_list_valid s' \<and> unique_names s'"
proof (induction cs arbitrary: s)
  case Nil
  then show ?case by simp
next
  case (Cons c cs)
  from Cons.prems(2) obtain s1 where 1: "call_step v c s = Some (Inr s1)"
    and 2: "run v cs s1 = Some (Inr s')"
    by (auto split: option.splits sum.splits)
  show ?case
    using Cons.IH [OF registry_step [OF Cons.prems(1) 1] 2] .
qed

lemma registry_boot: "fs_list_valid boot \<and> unique_names boot"
  by (simp add: fs_list_valid_def unique_names_def example_defs)

lemma registry_reached:
  "run v cs boot = Some (Inr s) \<Longrightarrow> fs_list_valid s \<and> unique_names s"
  using registry_boot by (rule registry_run)

subsection \<open>The static tables stay as init_module leaves them\<close>

lemma module_loaded_boot: "module_loaded boot"
  by (simp add: module_loaded_def)


lemma module_loaded_kernel_only: "kernel_only s s' \<Longrightarrow> module_loaded s \<Longrightarrow> module_loaded s'"
  by (simp add: kernel_only_def module_loaded_def)

lemma module_loaded_register:
  assumes "proclikefs_register_filesystem v try_ok km_ok err nm flags cb s = Inr (h, s')"
    and "module_loaded s"
  shows "module_loaded s'"
  using assms
  by (auto simp: proclikefs_register_filesystem_def module_loaded_def Let_def
      MOD_INC_USE_COUNT_def MOD_DEC_USE_COUNT_def printk_def kmalloc_def
      split: option.splits sum.splits if_splits lookup.splits prod.splits)

lemma module_loaded_new_file_operations:
  assumes "proclikefs_new_file_operations km_ok h s = Inr (r, s')" and "module_loaded s"
  shows "module_loaded s'"
  using assms
  by (auto simp: proclikefs_new_file_operations_def module_loaded_def Let_def kmalloc_def
      split: option.splits if_splits prod.splits)

lemma module_loaded_new_inode_operations:
  assumes "proclikefs_new_inode_operations km_ok h s = Inr (r, s')" and "module_loaded s"
  shows "module_loaded s'"
  using assms
  by (auto simp: proclikefs_new_inode_operations_def module_loaded_def Let_def kmalloc_def
      split: option.splits if_splits prod.splits)

lemma module_loaded_read_super:
  assumes "proclikefs_read_super v try_ok sb s = Inr s'" and "module_loaded s"
  shows "module_loaded s'"
  using assms
  by (auto simp: proclikefs_read_super_def module_loaded_def Let_def
      MOD_INC_USE_COUNT_def MOD_DEC_USE_COUNT_def printk_def
      split: option.splits if_splits)

lemma module_loaded_put_super:
  assumes "proclikefs_put_super sb s = Inr s'" and "module_loaded s"
  shows "module_loaded s'"
  using assms
  by (auto simp: proclikefs_put_super_def module_loaded_def Let_def kfree_all_def
      MOD_DEC_USE_COUNT_def split: option.splits if_splits)

lemma module_loaded_unregister:
  assumes "proclikefs_unregister_filesystem v h s = Some (Inr s')" and "module_loaded s"
  shows "module_loaded s'"
proof (cases h)
  case None
  with assms show ?thesis
    by (simp add: proclikefs_unregister_filesystem_def)
next
  case (Some p)
  with assms obtain f where f: "pfs_heap s p = Some f"
    by (auto simp: proclikefs_unregister_filesystem_def split: option.splits)
  let ?s2 = "clear_pio v (pfs_pio f) (clear_pfo v (pfs_pfo f) s)"
  from assms Some obtain s4 where k: "kernel_only ?s2 s4"
      and s': "s' = MOD_DEC_USE_COUNT (s4\<lparr>pfs_heap := (pfs_heap s4)(p \<mapsto> retire v f)\<rparr>)"
    using unregister_result [OF _ f] by blast
  have "module_loaded ?s2"
    using assms(2) by (simp add: module_loaded_def clear_pfo_frame clear_pio_frame)
  with k have "module_loaded s4"
    by (rule module_loaded_kernel_only)
  then show ?thesis
    by (simp add: s' module_loaded_def MOD_DEC_USE_COUNT_def)
qed

lemma module_loaded_step:
  assumes "call_step v c s = Some (Inr s')" and "module_loaded s"
  shows "module_loaded s'"
proof (cases c)
  case (Register try_ok km_ok err nm flags cb)
  with assms(1) obtain h
    where "proclikefs_register_filesystem v try_ok km_ok err nm flags cb s = Inr (h, s')"
    by (cases "proclikefs_register_filesystem v try_ok km_ok err nm flags cb s") auto
  then show ?thesis
    using assms(2) by (rule module_loaded_register)
next
  case (Unregister h)
  with assms show ?thesis
    by (simp add: module_loaded_unregister)
next
  case (New_file_operations km_ok h)
  with assms(1) obtain r where "proclikefs_new_file_operations km_ok h s = Inr (r, s')"
    by (cases "proclikefs_new_file_operations km_ok h s") auto
  then show ?thesis
    using assms(2) by (rule module_loaded_new_file_operations)
next
  case (New_inode_operations km_ok h)
  with assms(1) obtain r where "proclikefs_new_inode_operations km_ok h s = Inr (r, s')"
    by (cases "proclikefs_new_inode_operations km_ok h s") auto
  then show ?thesis
    using assms(2) by (rule module_loaded_new_inode_operations)
next
  case (Read_super try_ok sb)
  with assms show ?thesis
    by (simp add: module_loaded_read_super)
next
  case (Put_super sb)
  with assms show ?thesis
    by (simp add: module_loaded_put_super)
qed

lemma module_loaded_run:
  "run v cs s = Some (Inr s') \<Longrightarrow> module_loaded s \<Longrightarrow> module_loaded s'"
proof (induction cs arbitrary: s)
  case Nil
  then show ?case by simp
next
  case (Cons c cs)
  from Cons.prems(1) obtain s1 where c: "call_step v c s = Some (Inr s1)"
      and r: "run v cs s1 = Some (Inr s')"
    by (auto split: option.splits sum.splits)
  from c Cons.prems(2) have "module_loaded s1"
    by (rule module_loaded_step)
  with r show ?case
    by (rule Cons.IH)
qed

lemma module_loaded_reached: "run v cs boot = Some (Inr s) \<Longrightarrow> module_loaded s"
  using module_loaded_boot by (rule module_loaded_run [rotated])

section \<open>The claims\<close>

text \<open>
  C6. While a live file system of a name is in the registry (a registry keyed by name,
  all of whose entries are allocated, as every run from a freshly loaded module keeps
  it), \<open>proclikefs_register_filesystem\<close> of that name returns the null pointer,
  and leaves the registry, every registered file system and the module's use count as
  they were. The state changes only when \<^verbatim>\<open>try_module_get\<close> fails (from 2.6.0),
  and then by one message.
\<close>

theorem register_live_name_fails:
  assumes "fs_list_valid s" and "unique_names s"
    and "p \<in> set (fs_list s)" and "pfs_heap s p = Some f" and "0 <s live f"
  shows "\<exists>s'. proclikefs_register_filesystem v try_ok km_ok err (Some (name f)) flags cb s
                 = Inr (None, s')
           \<and> s' = (if KERNEL_VERSION 2 6 0 \<le> v \<and> \<not> try_ok
                   then printk Msg_error_using_module s else s)
           \<and> fs_list s' = fs_list s \<and> pfs_heap s' = pfs_heap s
           \<and> use_count s' = use_count s \<and> heap_next s' = heap_next s"
proof -
  have "lookup_loop (pfs_heap s) (name f) (fs_list s) None = Inr Active"
    using lookup_loop_registry [OF assms(1-4), of None] assms(5) by simp
  then show ?thesis
    by (simp add: proclikefs_register_filesystem_def Let_def lookup_loop_use_count MOD_DEC_INC
        printk_def)
qed

theorem register_live_name_fails_witness:
  "fs_list_valid registered_a \<and> unique_names registered_a \<and> 0 \<in> set (fs_list registered_a)
   \<and> pfs_heap registered_a 0 = Some fs_a \<and> 0 <s live fs_a
   \<and> proclikefs_register_filesystem v26 True True 0 (Some ''a'') 7 (fn_driver 1) registered_a
       = Inr (None, registered_a)"
proof -
  have h: "fs_list_valid registered_a" "unique_names registered_a"
    "0 \<in> set (fs_list registered_a)" "pfs_heap registered_a 0 = Some fs_a" "0 <s live fs_a"
    by (simp_all add: example_registry)
      (simp_all add: example_defs set_callbacks_def new_file_system_def Let_def live_1)
  have n: "name fs_a = ''a''"
    by (simp add: example_defs set_callbacks_def new_file_system_def Let_def)
  have "proclikefs_register_filesystem v26 True True 0 (Some ''a'') 7 (fn_driver 1) registered_a
          = Inr (None, registered_a)"
    using register_live_name_fails [OF h, of v26 True True 0 7 "fn_driver 1"]
    by (simp add: n)
  with h show ?thesis by simp
qed

text \<open>
  C10. With a null name \<open>proclikefs_register_filesystem\<close> returns the null pointer,
  and with a null pointer \<open>proclikefs_unregister_filesystem\<close> returns; either
  leaves the whole state as it was: no use count taken, nothing allocated, nothing logged.
\<close>

theorem null_arguments_change_nothing:
  "proclikefs_register_filesystem v try_ok km_ok err None flags cb s = Inr (None, s)
   \<and> proclikefs_unregister_filesystem v None s = Some (Inr s)"
  by (simp add: proclikefs_register_filesystem_def proclikefs_unregister_filesystem_def)

text \<open>
  C3. \<open>proclikefs_put_super\<close> on a super block of an allocated file system always
  returns. When the file system is not live and the decrement brings \<open>nsuper\<close> to 0, it
  takes the file system off the registry, frees every table of \<open>pfs_pfo\<close>, then every
  table of \<open>pfs_pio\<close>, then the file system, each by one \<^verbatim>\<open>kfree\<close>. In every other
  state it frees nothing, logs nothing and leaves the registry as it was; only the
  counters change.
\<close>

theorem put_super_reclaims:
  assumes "pfs_heap s (s_type (sbs s sb)) = Some f"
  shows "\<exists>s'. proclikefs_put_super sb s = Inr s' \<and>
     (if live f = 0 \<and> nsuper f - 1 = 0
      then fs_list s' = removeAll (s_type (sbs s sb)) (fs_list s)
         \<and> pfs_heap s' = (pfs_heap s)(s_type (sbs s sb) := None)
         \<and> trace s' = trace s @ [Unregister_filesystem (s_type (sbs s sb))]
              @ map (Kfree PFO) (pfs_pfo f) @ map (Kfree PIO) (pfs_pio f)
              @ [Kfree PFS (s_type (sbs s sb))]
      else fs_list s' = fs_list s \<and> trace s' = trace s
         \<and> pfs_heap s' = (pfs_heap s)(s_type (sbs s sb) \<mapsto> f\<lparr>nsuper := nsuper f - 1\<rparr>))"
  using assms by (rule put_super_result)

theorem put_super_reclaims_witness:
  "pfs_heap retired_a (s_type (sbs retired_a 5))
     = Some (fs_a\<lparr>nsuper := 1, live := 0, pfs_pfo := [1], pfs_pio := [2]\<rparr>)
   \<and> (\<exists>s'. proclikefs_put_super 5 retired_a = Inr s' \<and> fs_list s' = [] \<and> pfs_heap s' 0 = None
         \<and> trace s' = trace retired_a @
              [Unregister_filesystem 0, Kfree PFO 1, Kfree PIO 2, Kfree PFS 0])"
proof -
  have h: "pfs_heap retired_a (s_type (sbs retired_a 5))
             = Some (fs_a\<lparr>nsuper := 1, live := 0, pfs_pfo := [1], pfs_pio := [2]\<rparr>)"
    by (simp add: example_defs)
  have t: "s_type (sbs retired_a 5) = 0" "fs_list retired_a = [0]"
    by (simp_all add: example_defs)
  show ?thesis
    using h put_super_reclaims [OF h] by (auto simp: t)
qed

text \<open>
  C5, as the code has it. \<open>proclikefs_put_super\<close> has no test for a release without
  an acquire. On an allocated file system whose \<open>nsuper\<close> is 0 or less, it logs
  nothing; it takes \<open>nsuper\<close> one further down and the module's use count with it,
  frees nothing and leaves the registry as it was.
\<close>

theorem put_super_unbalanced:
  assumes "pfs_heap s (s_type (sbs s sb)) = Some f" and "sint (nsuper f) \<le> 0"
  shows "proclikefs_put_super sb s =
           Inr (s\<lparr>pfs_heap := (pfs_heap s)(s_type (sbs s sb) \<mapsto> f\<lparr>nsuper := nsuper f - 1\<rparr>),
                  use_count := use_count s - 1\<rparr>)"
proof -
  have "nsuper f \<noteq> 1"
    using assms(2) by auto
  then have "nsuper f - 1 \<noteq> 0"
    by simp
  with assms(1) show ?thesis
    by (simp add: proclikefs_put_super_def Let_def MOD_DEC_USE_COUNT_def)
qed

theorem put_super_unbalanced_witness:
  "pfs_heap registered_a (s_type (sbs registered_a 5)) = Some fs_a \<and> sint (nsuper fs_a) \<le> 0
   \<and> proclikefs_put_super 5 registered_a =
       Inr (registered_a\<lparr>pfs_heap := (pfs_heap registered_a)(0 \<mapsto> fs_a\<lparr>nsuper := - 1\<rparr>),
                         use_count := 0\<rparr>)"
proof -
  have h: "pfs_heap registered_a (s_type (sbs registered_a 5)) = Some fs_a"
    "sint (nsuper fs_a) \<le> 0"
    by (simp_all add: example_defs set_callbacks_def new_file_system_def Let_def)
  have t: "s_type (sbs registered_a 5) = 0" "use_count registered_a = 1" "nsuper fs_a = 0"
    by (simp_all add: example_defs set_callbacks_def new_file_system_def Let_def)
  show ?thesis
    using h put_super_unbalanced [OF h] by (simp add: t)
qed

text \<open>
  C5, as the claim has it, fails: after \<^verbatim>\<open>proclikefs_register_filesystem("a")\<close> and
  no \<open>proclikefs_read_super\<close>, a \<open>proclikefs_put_super\<close> logs nothing, and it is no
  no-op: \<open>nsuper\<close> becomes \<open>-1\<close> and the use count goes from 1 to 0.
\<close>

theorem put_super_unbalanced_counterexample:
  "map_sum id (\<lambda>s. (trace s = trace registered_a, map_option nsuper (pfs_heap s 0),
                     use_count registered_a, use_count s))
     (proclikefs_put_super 5 registered_a)
   = Inr (True, Some (- 1), 1, 0)"
  by (simp add: example_defs op_defs)

text \<open>
  C9. When the registry (keyed by name, all entries allocated) holds a file system of
  the name that is not live, \<open>proclikefs_register_filesystem\<close> returns that file
  system and allocates nothing. It writes \<open>fs_flags\<close>, the callbacks and \<open>live\<close>;
  \<open>nsuper\<close>, \<open>pfs_pfo\<close> and \<open>pfs_pio\<close> stay, and so do the tables. While the file
  system is live again no \<open>proclikefs_put_super\<close> frees anything; after the next
  \<open>proclikefs_unregister_filesystem\<close> a \<open>proclikefs_put_super\<close> frees the file system
  and the tables of the earlier lifetime, each by one \<^verbatim>\<open>kfree\<close>, exactly when it is
  the last of the earlier lifetime's super blocks (\<open>nsuper\<close> was 1).
\<close>

theorem register_keeps_counter_and_tables:
  assumes "fs_list_valid s" and "unique_names s"
    and "p \<in> set (fs_list s)" and "pfs_heap s p = Some f" and "\<not> 0 <s live f"
    and "v < KERNEL_VERSION 2 6 0 \<or> try_ok"
    and "s1 = s\<lparr>pfs_heap := (pfs_heap s)(p \<mapsto> set_callbacks v flags cb f),
                 use_count := use_count s + 1\<rparr>"
  shows "proclikefs_register_filesystem v try_ok km_ok err (Some (name f)) flags cb s
           = Inr (Some p, s1)
       \<and> nsuper (set_callbacks v flags cb f) = nsuper f
       \<and> pfs_pfo (set_callbacks v flags cb f) = pfs_pfo f
       \<and> pfs_pio (set_callbacks v flags cb f) = pfs_pio f
       \<and> live (set_callbacks v flags cb f) = 1
       \<and> (\<forall>sb. s_type (sbs s1 sb) = p \<longrightarrow>
             (\<exists>s3. proclikefs_put_super sb s1 = Inr s3 \<and> trace s3 = trace s1
                    \<and> fs_list s3 = fs_list s1))
       \<and> (\<forall>s2 sb. proclikefs_unregister_filesystem v (Some p) s1 = Some (Inr s2)
                   \<and> s_type (sbs s2 sb) = p \<longrightarrow>
             (\<exists>s3. proclikefs_put_super sb s2 = Inr s3 \<and>
                (if nsuper f = 1
                 then trace s3 = trace s2 @ [Unregister_filesystem p]
                        @ map (Kfree PFO) (pfs_pfo f) @ map (Kfree PIO) (pfs_pio f) @ [Kfree PFS p]
                 else trace s3 = trace s2 \<and> fs_list s3 = fs_list s2)))"
proof (intro conjI allI impI)
  have "lookup_loop (pfs_heap s) (name f) (fs_list s) None = Inr (Stop (Some p))"
    using lookup_loop_registry [OF assms(1-4), of None] assms(5) by simp
  then show "proclikefs_register_filesystem v try_ok km_ok err (Some (name f)) flags cb s
           = Inr (Some p, s1)"
    using assms(4,6,7)
    by (auto simp: proclikefs_register_filesystem_def Let_def lookup_loop_use_count
        MOD_INC_USE_COUNT_def)
next
  fix sb
  assume "s_type (sbs s1 sb) = p"
  then have h: "pfs_heap s1 (s_type (sbs s1 sb)) = Some (set_callbacks v flags cb f)"
    using assms(7) by simp
  show "\<exists>s3. proclikefs_put_super sb s1 = Inr s3 \<and> trace s3 = trace s1 \<and> fs_list s3 = fs_list s1"
    using put_super_result [OF h] by (auto simp: set_callbacks_fields)
next
  fix s2 sb
  assume a: "proclikefs_unregister_filesystem v (Some p) s1 = Some (Inr s2)
               \<and> s_type (sbs s2 sb) = p"
  have h1: "pfs_heap s1 p = Some (set_callbacks v flags cb f)"
    using assms(7) by simp
  from a have u: "proclikefs_unregister_filesystem v (Some p) s1 = Some (Inr s2)"
    by simp
  obtain s4 where
    "s2 = MOD_DEC_USE_COUNT
            (s4\<lparr>pfs_heap := (pfs_heap s4)(p \<mapsto> retire v (set_callbacks v flags cb f))\<rparr>)"
    using unregister_result [OF u h1] by blast
  then have "pfs_heap s2 p = Some (retire v (set_callbacks v flags cb f))"
    by (simp add: MOD_DEC_USE_COUNT_def)
  with a have h2: "pfs_heap s2 (s_type (sbs s2 sb)) = Some (retire v (set_callbacks v flags cb f))"
    by simp
  show "\<exists>s3. proclikefs_put_super sb s2 = Inr s3 \<and>
                (if nsuper f = 1
                 then trace s3 = trace s2 @ [Unregister_filesystem p]
                        @ map (Kfree PFO) (pfs_pfo f) @ map (Kfree PIO) (pfs_pio f) @ [Kfree PFS p]
                 else trace s3 = trace s2 \<and> fs_list s3 = fs_list s2)"
    using put_super_result [OF h2] a
    by (auto simp: retire_fields set_callbacks_fields)
qed (simp_all add: set_callbacks_fields)

theorem register_keeps_counter_and_tables_witness:
  "fs_list_valid retired_a \<and> unique_names retired_a \<and> 0 \<in> set (fs_list retired_a)
   \<and> pfs_heap retired_a 0 = Some (fs_a\<lparr>nsuper := 1, live := 0, pfs_pfo := [1], pfs_pio := [2]\<rparr>)
   \<and> \<not> 0 <s (0 :: 32 word)
   \<and> proclikefs_register_filesystem v26 True True 0 (Some ''a'') 7 (fn_driver 1) retired_a
       = Inr (Some 0,
              retired_a\<lparr>pfs_heap := (pfs_heap retired_a)
                           (0 \<mapsto> set_callbacks v26 7 (fn_driver 1)
                                 (fs_a\<lparr>nsuper := 1, live := 0, pfs_pfo := [1], pfs_pio := [2]\<rparr>)),
                        use_count := use_count retired_a + 1\<rparr>)
   \<and> nsuper (set_callbacks v26 7 (fn_driver 1)
               (fs_a\<lparr>nsuper := 1, live := 0, pfs_pfo := [1], pfs_pio := [2]\<rparr>)) = 1
   \<and> pfs_pfo (set_callbacks v26 7 (fn_driver 1)
               (fs_a\<lparr>nsuper := 1, live := 0, pfs_pfo := [1], pfs_pio := [2]\<rparr>)) = [1]
   \<and> observe (\<lambda>s. (drop (length (trace retired_a)) (trace s), fs_list s, pfs_heap s 0))
        (run v26 [Register True True 0 (Some ''a'') 7 (fn_driver 1), Unregister (Some 0),
                  Put_super 5] retired_a)
      = Some (Inr ([Unregister_filesystem 0, Kfree PFO 1, Kfree PIO 2, Kfree PFS 0], [], None))"
proof -
  let ?f = "fs_a\<lparr>nsuper := 1, live := 0, pfs_pfo := [1], pfs_pio := [2]\<rparr>"
  have r: "observe (\<lambda>s. (drop (length (trace retired_a)) (trace s), fs_list s, pfs_heap s 0))
        (run v26 [Register True True 0 (Some ''a'') 7 (fn_driver 1), Unregister (Some 0),
                  Put_super 5] retired_a)
      = Some (Inr ([Unregister_filesystem 0, Kfree PFO 1, Kfree PIO 2, Kfree PFS 0], [], None))"
    by (simp add: observe_def example_defs op_defs clear_file_operations_def
        clear_inode_operations_def)
  have h: "fs_list_valid retired_a" "unique_names retired_a" "0 \<in> set (fs_list retired_a)"
    "pfs_heap retired_a 0 = Some ?f" "\<not> 0 <s live ?f" "v26 < KERNEL_VERSION 2 6 0 \<or> True"
    by (simp_all add: example_registry) (simp_all add: example_defs)
  have n: "name fs_a = ''a''"
    by (simp add: example_defs set_callbacks_def new_file_system_def Let_def)
  have "fs_list_valid retired_a \<and> unique_names retired_a \<and> 0 \<in> set (fs_list retired_a)
   \<and> pfs_heap retired_a 0 = Some ?f \<and> \<not> 0 <s (0 :: 32 word)
   \<and> proclikefs_register_filesystem v26 True True 0 (Some ''a'') 7 (fn_driver 1) retired_a
       = Inr (Some 0,
              retired_a\<lparr>pfs_heap := (pfs_heap retired_a)
                           (0 \<mapsto> set_callbacks v26 7 (fn_driver 1) ?f),
                        use_count := use_count retired_a + 1\<rparr>)
   \<and> nsuper (set_callbacks v26 7 (fn_driver 1) ?f) = 1
   \<and> pfs_pfo (set_callbacks v26 7 (fn_driver 1) ?f) = [1]"
    using h(1-4) register_keeps_counter_and_tables [OF h refl, of True 0 7 "fn_driver 1"]
    by (simp add: n)
  with r show ?thesis
    by (simp only: simp_thms)
qed

lemma lookup_loop_no_match:
  assumes "\<forall>q\<in>set ps. \<exists>g. H q = Some g \<and> name g \<noteq> nm"
  shows "lookup_loop H nm ps acc = Inr (Stop (if ps = [] then acc else Some (last ps)))"
  using assms by (induction ps arbitrary: acc) auto

text \<open>
  C4 does not hold of the code. The loop over the registry leaves \<^verbatim>\<open>newfs\<close> at the
  last entry it looked at, and the test \<^verbatim>\<open>if (!newfs)\<close> that follows takes a registry
  without the name for a registry with a retired entry of the name. With the live file
  system \<open>a\<close> registered, \<^verbatim>\<open>proclikefs_register_filesystem("b", 0, get_sb)\<close>
  returns the file system \<open>a\<close> at address 0: nothing is allocated (\<open>heap_next\<close> stays
  1), the registry still is \<open>[0]\<close>, the entry keeps the name \<open>a\<close> and has the
  callback of \<open>b\<close>, and the use count is taken a second time.
\<close>

theorem register_other_name_takes_last_entry:
  "map_sum id (\<lambda>(h, s). (h, fs_list s, map_option name (pfs_heap s 0),
                          map_option (\<lambda>f. get_sb (fs f)) (pfs_heap s 0),
                          heap_next s, use_count s, trace s = trace registered_a))
     (proclikefs_register_filesystem v26 True True 0 (Some ''b'') 0 (fn_driver 1) registered_a)
   = Inr (Some 0, [0], Some ''a'', Some (fn_driver 1), 1, 2, True)"
  by (simp add: example_defs op_defs)

lemma new_file_operations_result:
  assumes "proclikefs_new_file_operations km_ok (Some pfs) s = Inr (Some pfo, s')"
  shows "\<exists>f. pfs_heap s pfs = Some f \<and> pfs_heap s' pfs = Some (f\<lparr>pfs_pfo := pfo # pfs_pfo f\<rparr>)
           \<and> pfo_heap s' pfo = (\<lambda>_. fn_NULL)"
  using assms
  by (auto simp: proclikefs_new_file_operations_def kmalloc_def split: if_splits option.splits)

lemma new_inode_operations_result:
  assumes "proclikefs_new_inode_operations km_ok (Some pfs) s = Inr (Some pio, s')"
  shows "\<exists>f. pfs_heap s pfs = Some f \<and> pfs_heap s' pfs = Some (f\<lparr>pfs_pio := pio # pfs_pio f\<rparr>)
           \<and> pio_heap s' pio = (\<lambda>_. fn_NULL)"
  using assms
  by (auto simp: proclikefs_new_inode_operations_def kmalloc_def split: if_splits option.splits)

lemma unregister_tables:
  assumes "proclikefs_unregister_filesystem v (Some pfs) s = Some (Inr s')"
    and "pfs_heap s pfs = Some f"
  shows "pfo_heap s' = pfo_heap (clear_pfo v (pfs_pfo f) s)"
    and "pio_heap s' = pio_heap (clear_pio v (pfs_pio f) s)"
proof -
  obtain s4 where k: "kernel_only (clear_pio v (pfs_pio f) (clear_pfo v (pfs_pfo f) s)) s4"
      and s': "s' = MOD_DEC_USE_COUNT (s4\<lparr>pfs_heap := (pfs_heap s4)(pfs \<mapsto> retire v f)\<rparr>)"
    using unregister_result [OF assms] by blast
  from k s' show "pfo_heap s' = pfo_heap (clear_pfo v (pfs_pfo f) s)"
    by (simp add: kernel_only_def MOD_DEC_USE_COUNT_def clear_pio_frame)
  have "pio_heap (clear_pio v (pfs_pio f) (clear_pfo v (pfs_pfo f) s))
          = pio_heap (clear_pio v (pfs_pio f) s)"
    by (rule ext) (simp add: pio_heap_clear_pio clear_pfo_frame)
  with k s' show "pio_heap s' = pio_heap (clear_pio v (pfs_pio f) s)"
    by (simp add: kernel_only_def MOD_DEC_USE_COUNT_def)
qed

text \<open>
  C1, as the code has it. The tables handed out by
  \<open>proclikefs_new_file_operations\<close> and \<open>proclikefs_new_inode_operations\<close> are the
  entries of \<open>pfs_pfo\<close> and \<open>pfs_pio\<close>. When \<open>proclikefs_unregister_filesystem\<close>
  returns, every member of every table of \<open>pfs_pfo\<close> is \<^verbatim>\<open>return_EIO\<close>, and so is
  every member of every table of \<open>pfs_pio\<close> but \<^verbatim>\<open>follow_link\<close>, which is null from
  2.6.16 and \<^verbatim>\<open>bad_follow_link\<close> before. A call of \<^verbatim>\<open>return_EIO\<close> returns
  \<^verbatim>\<open>-EIO\<close>. The members are those the source names for the kernel version; the
  structures themselves are the kernel's.
\<close>

theorem unregister_clears_tables:
  assumes "proclikefs_unregister_filesystem v (Some pfs) s = Some (Inr s')"
    and "pfs_heap s pfs = Some f"
  shows "(\<forall>pfo\<in>set (pfs_pfo f). \<forall>sl. fo_slot_exists v sl \<longrightarrow>
            pfo_heap s' pfo sl = fn_return_EIO \<and> stub_result (pfo_heap s' pfo sl) = Some (- EIO))
       \<and> (\<forall>pio\<in>set (pfs_pio f). \<forall>sl. io_slot_exists v sl \<longrightarrow>
            (if sl = IO_follow_link
             then pio_heap s' pio sl =
                    (if KERNEL_VERSION 2 6 16 \<le> v then fn_NULL else fn_bad_follow_link)
             else pio_heap s' pio sl = fn_return_EIO
                  \<and> stub_result (pio_heap s' pio sl) = Some (- EIO)))"
  by (simp add: unregister_tables [OF assms] pfo_heap_clear_pfo pio_heap_clear_pio
      clear_file_operations_slot clear_inode_operations_slot)

lemma unregister_mounted_a:
  "proclikefs_unregister_filesystem v26 (Some 0) mounted_a = Some (Inr retired_a)"
  by (simp add: example_defs op_defs)

theorem unregister_clears_tables_witness:
  "proclikefs_unregister_filesystem v26 (Some 0) mounted_a = Some (Inr retired_a)
   \<and> pfs_heap mounted_a 0 = Some (fs_a\<lparr>nsuper := 1, pfs_pfo := [1], pfs_pio := [2]\<rparr>)
   \<and> pfo_heap retired_a 1 FO_read = fn_return_EIO
   \<and> pfo_heap retired_a 1 FO_flock = fn_return_EIO
   \<and> pio_heap retired_a 2 IO_lookup = fn_return_EIO
   \<and> pio_heap retired_a 2 IO_follow_link = fn_NULL"
proof -
  have h: "pfs_heap mounted_a 0 = Some (fs_a\<lparr>nsuper := 1, pfs_pfo := [1], pfs_pio := [2]\<rparr>)"
    by (simp add: example_defs)
  have v: "KERNEL_VERSION 2 6 16 \<le> v26" "fo_slot_exists v26 FO_read" "fo_slot_exists v26 FO_flock"
    "io_slot_exists v26 IO_lookup" "io_slot_exists v26 IO_follow_link"
    by (simp_all add: v26_def KERNEL_VERSION_def)
  show ?thesis
    using unregister_mounted_a h v unregister_clears_tables [OF unregister_mounted_a h]
    by auto
qed

text \<open>
  C1, as the claim has it, fails: after the run that registers \<open>a\<close>, takes one table
  of each kind, and unregisters, the member \<^verbatim>\<open>follow_link\<close> of the inode table is
  null, not \<^verbatim>\<open>return_EIO\<close>.
\<close>

theorem unregister_clears_tables_counterexample:
  "observe (\<lambda>s. (pio_heap s 2 IO_follow_link, pio_heap s 2 IO_follow_link = fn_return_EIO,
                  stub_result (pio_heap s 2 IO_follow_link)))
     (run v26 calls_retire_a boot)
   = Some (Inr (fn_NULL, False, None))"
  by (simp add: run_retire_a observe_def) (simp add: example_defs clear_inode_operations_def)




text \<open>
  C7, as the code has it. Take any run of calls that starts in a state with sound
  bookkeeping, such as a freshly loaded module, and that returns. No table is freed
  twice, every freed table was allocated by \<open>proclikefs_new_file_operations\<close> or
  \<open>proclikefs_new_inode_operations\<close>, and the allocated tables that are not freed are
  the tables on the lists of the file systems still allocated. So when the registry is
  empty again, as many tables are freed as were allocated. Whether the acquires and
  releases of the run match does not matter for this.
\<close>

theorem tables_freed_once:
  assumes "tables_inv s0" and "run v cs s0 = Some (Inr s)"
  shows "distinct (freed_tables (trace s)) \<and> distinct (allocated_tables (trace s))
       \<and> set (freed_tables (trace s)) \<subseteq> set (allocated_tables (trace s))
       \<and> set (allocated_tables (trace s)) - set (freed_tables (trace s)) = owned_tables s
       \<and> (fs_list s = [] \<longrightarrow>
            length (freed_tables (trace s)) = length (allocated_tables (trace s)))"
proof -
  let ?al = "allocated_tables (trace s)" and ?fr = "freed_tables (trace s)"
  have "tables_inv s"
    using assms by (rule tables_inv_run)
  then have iv: "distinct ?al" "distinct ?fr" "set ?fr \<inter> owned (table_lists s) = {}"
    "set ?al = set ?fr \<union> owned (table_lists s)"
    "set (fs_list s) = {p. table_lists s p \<noteq> None}"
    unfolding tables_inv_def inv_view_def by blast+
  have e: "fs_list s = [] \<longrightarrow> length ?fr = length ?al"
  proof
    assume "fs_list s = []"
    with iv(5) have "owned (table_lists s) = {}"
      by (auto simp: owned_def)
    with iv(4) have "set ?al = set ?fr" by simp
    then have "card (set ?al) = card (set ?fr)" by simp
    then show "length ?fr = length ?al"
      using iv(1,2) by (simp add: distinct_card)
  qed
  from iv e show ?thesis
    unfolding owned_tables_def by blast
qed

theorem tables_freed_once_witness:
  "tables_inv boot \<and> run v26 calls_reclaim_a boot = Some (Inr reclaimed_a)
   \<and> allocated_tables (trace reclaimed_a) = [1, 2] \<and> freed_tables (trace reclaimed_a) = [1, 2]
   \<and> fs_list reclaimed_a = [] \<and> owned_tables reclaimed_a = {}
   \<and> distinct (freed_tables (trace reclaimed_a))
   \<and> length (freed_tables (trace reclaimed_a)) = length (allocated_tables (trace reclaimed_a))"
proof -
  have t: "allocated_tables (trace reclaimed_a) = [1, 2]" "freed_tables (trace reclaimed_a) = [1, 2]"
    "fs_list reclaimed_a = []"
    by (simp_all add: reclaimed_a_def example_defs)
  from tables_freed_once [OF tables_inv_boot run_reclaim_a]
  have "distinct (freed_tables (trace reclaimed_a))"
    "set (allocated_tables (trace reclaimed_a)) - set (freed_tables (trace reclaimed_a))
       = owned_tables reclaimed_a"
    "length (freed_tables (trace reclaimed_a)) = length (allocated_tables (trace reclaimed_a))"
    using t(3) by simp_all
  then show ?thesis
    using tables_inv_boot run_reclaim_a t by simp
qed

text \<open>
  C7, as the claim has it, fails: register \<open>a\<close>, take one table, acquire and release
  one super block, unregister. The acquires and releases match; when the release comes
  the file system is live, and after the unregister no release comes. One table is
  allocated and none is freed.
\<close>

theorem tables_freed_once_counterexample:
  "balanced calls_leak
   \<and> observe (\<lambda>s. (allocated_tables (trace s), freed_tables (trace s), fs_list s))
        (run v26 calls_leak boot) = Some (Inr ([1], [], [0]))"
  by (simp add: balanced_def calls_leak_def observe_def example_defs op_defs)

text \<open>
  C8. When \<open>proclikefs_unregister_filesystem\<close> has returned, a second call on the
  same file system returns as well. It clears the tables and walks the super blocks
  again, and leaves every table, every dentry, super block, inode and file, the
  registry and the file system itself exactly as the first call left them; the file
  system stays not live. Beyond the two steps the second call is no no-op: it takes the
  module's use count down once more (and the trace records the walk again).
\<close>

theorem unregister_twice:
  assumes "proclikefs_unregister_filesystem v (Some p) s = Some (Inr s1)"
  shows "\<exists>s2. proclikefs_unregister_filesystem v (Some p) s1 = Some (Inr s2)
           \<and> pfo_heap s2 = pfo_heap s1 \<and> pio_heap s2 = pio_heap s1
           \<and> dentries s2 = dentries s1 \<and> sbs s2 = sbs s1 \<and> inodes s2 = inodes s1
           \<and> files s2 = files s1
           \<and> pfs_heap s2 = pfs_heap s1 \<and> fs_list s2 = fs_list s1
           \<and> map_option live (pfs_heap s2 p) = Some 0
           \<and> use_count s2 = use_count s1 - 1"
  using assms by (rule unregister_twice_aux)

theorem unregister_twice_witness:
  "\<exists>s1 s2. proclikefs_unregister_filesystem v26 (Some 0) planted_a = Some (Inr s1)
      \<and> proclikefs_unregister_filesystem v26 (Some 0) s1 = Some (Inr s2)
      \<and> pfo_heap s2 = pfo_heap s1 \<and> pio_heap s2 = pio_heap s1
      \<and> dentries s2 = dentries s1 \<and> sbs s2 = sbs s1 \<and> inodes s2 = inodes s1
      \<and> files s2 = files s1
      \<and> map_option live (pfs_heap s2 0) = Some 0
      \<and> d_fsdata (dentries s1 14) = Some 13 \<and> d_unhashed (dentries s1 13)
      \<and> f_op (files s1 30) = Some 1 \<and> pfo_heap s1 1 FO_read = fn_return_EIO"
proof -
  have "\<exists>s1. proclikefs_unregister_filesystem v26 (Some 0) planted_a = Some (Inr s1)
      \<and> d_fsdata (dentries s1 14) = Some 13 \<and> d_unhashed (dentries s1 13)
      \<and> f_op (files s1 30) = Some 1 \<and> pfo_heap s1 1 FO_read = fn_return_EIO"
    by (simp add: planted_a_def example_defs op_defs kill_dentries.simps process_dentry_def
        d_drop_def clear_file_operations_def)
  then obtain s1 where 1: "proclikefs_unregister_filesystem v26 (Some 0) planted_a = Some (Inr s1)"
    and o: "d_fsdata (dentries s1 14) = Some 13 \<and> d_unhashed (dentries s1 13)
      \<and> f_op (files s1 30) = Some 1 \<and> pfo_heap s1 1 FO_read = fn_return_EIO"
    by blast
  from unregister_twice [OF 1] 1 o show ?thesis by blast
qed

end
